theory Spec2Isabelle
  imports Main
begin

section \<open>The Shop monitor of the sleeping-barber simulation\<close>

text \<open>
  Shop.cpp implements a monitor: every public method takes \<^verbatim>\<open>mutex_\<close> on entry and holds
  it until it returns or calls \<^verbatim>\<open>pthread_cond_wait\<close>, which gives the mutex up while the
  thread is suspended and takes it again before it goes on. The code between two such
  points therefore runs atomically on the shared fields, and each method is embedded as
  one state transformer per such stretch of code: the stretch from the entry of the method
  to its first wait or return, and the stretch that runs after a wake-up.

  The counters are C++ \<^verbatim>\<open>int\<close>s that move by one per call: \<^verbatim>\<open>cust_drops_\<close> and
  \<^verbatim>\<open>sleeping_barbs_\<close> change at most once per stretch of code and \<^verbatim>\<open>waiting_customers_\<close>
  stays between 0 and \<^verbatim>\<open>max_waiting_cust_\<close>. Signed overflow is undefined in C++, so the
  program has a meaning only while the counters stay inside the range of \<^verbatim>\<open>int\<close>; the
  embedding computes with unbounded integers and describes exactly those runs, that is,
  every run of fewer than \<open>2^31\<close> calls. The text that \<^verbatim>\<open>print\<close> writes to the console
  is not part of the state, and a failing \<^verbatim>\<open>new\<close> is not modelled.
\<close>

subsection \<open>The data members (Shop.h)\<close>

record shop =
  max_waiting_cust :: int
  max_working_barb :: int
  waiting_customers :: int
  sleeping_barbs :: int
  cust_drops :: int
  customer_in_chair :: "int list"
  in_service :: "bool list"
  money_paid :: "bool list"

definition kDefaultNumChairs :: int where
  "kDefaultNumChairs = 3"

definition kDefaultBarbers :: int where
  "kDefaultBarbers = 1"

subsection \<open>Construction: Shop::Shop and Shop::init\<close>

text \<open>
  The loop of \<^verbatim>\<open>init()\<close>, from index \<open>i\<close> on: it overwrites the three per-barber arrays
  (the condition variables it initialises hold no data).
\<close>

function init_loop :: "int \<Rightarrow> shop \<Rightarrow> shop" where
  "init_loop i s =
     (if i < max_working_barb s then
        init_loop (i + 1)
          (s\<lparr>customer_in_chair := (customer_in_chair s)[nat i := 0],
             in_service := (in_service s)[nat i := False],
             money_paid := (money_paid s)[nat i := False]\<rparr>)
      else s)"
  by pat_completeness auto
termination
  by (relation "measure (\<lambda>(i, s). nat (max_working_barb s - i))") auto

declare init_loop.simps [simp del]

definition init :: "shop \<Rightarrow> shop" where
  "init s = init_loop 0 s"

text \<open>
  The member initialisers and the three \<^verbatim>\<open>new[]\<close> of the constructors. The arrays come
  from \<^verbatim>\<open>new\<close> with indeterminate elements; \<open>junk_int\<close> and \<open>junk_bool\<close> stand for them, and
  \<open>init\<close> overwrites every one before anything reads it.
\<close>

definition junk_int :: int where
  "junk_int = 12345"

definition junk_bool :: bool where
  "junk_bool = True"

definition members :: "int \<Rightarrow> int \<Rightarrow> shop" where
  "members chairs barbers =
     \<lparr>max_waiting_cust = chairs,
      max_working_barb = barbers,
      waiting_customers = 0,
      sleeping_barbs = 0,
      cust_drops = 0,
      customer_in_chair = replicate (nat barbers) junk_int,
      in_service = replicate (nat barbers) junk_bool,
      money_paid = replicate (nat barbers) junk_bool\<rparr>"

definition Shop :: "int \<Rightarrow> int \<Rightarrow> shop" where
  "Shop num_barbers num_chairs =
     init (members (if num_chairs \<ge> 0 then num_chairs else kDefaultNumChairs)
                   (if num_barbers > 0 then num_barbers else kDefaultBarbers))"

definition Shop_default :: shop where
  "Shop_default = init (members kDefaultNumChairs kDefaultBarbers)"

subsection \<open>Shop::assignBarber\<close>

text \<open>The \<^verbatim>\<open>for\<close> loop of \<^verbatim>\<open>assignBarber\<close>, from index \<open>barbID\<close> on.\<close>

function assignBarber_loop :: "int \<Rightarrow> int \<Rightarrow> shop \<Rightarrow> int \<times> shop" where
  "assignBarber_loop custID barbID s =
     (if barbID < max_working_barb s then
        (if customer_in_chair s ! nat barbID = 0 then
           (barbID, s\<lparr>customer_in_chair := (customer_in_chair s)[nat barbID := custID],
                      sleeping_barbs := sleeping_barbs s - 1\<rparr>)
         else assignBarber_loop custID (barbID + 1) s)
      else (- 1, s))"
  by pat_completeness auto
termination
  by (relation "measure (\<lambda>(custID, barbID, s). nat (max_working_barb s - barbID))") auto

declare assignBarber_loop.simps [simp del]

definition assignBarber :: "int \<Rightarrow> shop \<Rightarrow> int \<times> shop" where
  "assignBarber custID s = assignBarber_loop custID 0 s"

text \<open>
  The arrays of a constructed Shop have \<open>max_working_barb\<close> elements each, the number of
  barbers is positive and the number of waiting chairs is not negative; no method changes
  either capacity or reallocates an array.
\<close>

definition shop_ok :: "shop \<Rightarrow> bool" where
  "shop_ok s \<longleftrightarrow>
     0 < max_working_barb s \<and> 0 \<le> max_waiting_cust s \<and>
     length (customer_in_chair s) = nat (max_working_barb s) \<and>
     length (in_service s) = nat (max_working_barb s) \<and>
     length (money_paid s) = nat (max_working_barb s)"

text \<open>A slot is empty when its entry of \<^verbatim>\<open>customer_in_chair_\<close> is 0.\<close>

definition all_occupied :: "shop \<Rightarrow> bool" where
  "all_occupied s \<longleftrightarrow> list_all (\<lambda>c. c \<noteq> 0) (customer_in_chair s)"

subsection \<open>Blocking: condition variables\<close>

text \<open>
  The condition variables hold no data. A stretch of code that ends in
  \<^verbatim>\<open>pthread_cond_wait\<close> yields \<open>Blocked\<close> with the condition it waits on; a stretch that
  ends in \<^verbatim>\<open>return\<close> yields \<open>Returned\<close> with the value. A wake-up is the caller running
  the next stretch: POSIX lets \<^verbatim>\<open>pthread_cond_wait\<close> return at any time (spurious
  wake-ups), so a blocked thread may go on in any later state.
\<close>

datatype cond =
  Cond_customers_waiting
  | Cond_customer_served int
  | Cond_barber_paid int
  | Cond_barber_sleeping int

datatype 'a outcome = Returned 'a | Blocked cond

subsection \<open>Shop::visitShop\<close>

text \<open>Lines 208 to 219, common to every path that found a chair.\<close>

definition sit_down :: "int \<Rightarrow> shop \<Rightarrow> shop" where
  "sit_down barbID s = s\<lparr>in_service := (in_service s)[nat barbID := True]\<rparr>"

text \<open>From the entry of \<^verbatim>\<open>visitShop\<close> to its first \<^verbatim>\<open>return\<close> or to the wait of line 193.\<close>

definition visitShop :: "int \<Rightarrow> shop \<Rightarrow> int outcome \<times> shop" where
  "visitShop custID s =
     (if max_waiting_cust s = 0 then
        (case assignBarber custID s of
           (barbID, s1) \<Rightarrow>
             if barbID = - 1 then (Returned barbID, s1\<lparr>cust_drops := cust_drops s1 + 1\<rparr>)
             else (Returned barbID, sit_down barbID s1))
      else if max_waiting_cust s = waiting_customers s then
        (Returned (- 1), s\<lparr>cust_drops := cust_drops s + 1\<rparr>)
      else
        (case assignBarber custID s of
           (barbID, s1) \<Rightarrow>
             if barbID = - 1 then
               (Blocked Cond_customers_waiting,
                s1\<lparr>waiting_customers := waiting_customers s1 + 1\<rparr>)
             else (Returned barbID, sit_down barbID s1)))"

text \<open>From the wake-up of line 193 to the \<^verbatim>\<open>return\<close>: lines 195 to 219.\<close>

definition visitShop_wake :: "int \<Rightarrow> shop \<Rightarrow> int \<times> shop" where
  "visitShop_wake custID s =
     (case assignBarber custID s of
        (barbID, s1) \<Rightarrow>
          if barbID = - 1 then
            (barbID, s1\<lparr>cust_drops := cust_drops s1 + 1,
                        waiting_customers := waiting_customers s1 - 1\<rparr>)
          else
            (barbID, sit_down barbID (s1\<lparr>waiting_customers := waiting_customers s1 - 1\<rparr>)))"

subsection \<open>Shop::leaveShop, Shop::helloCustomer, Shop::byeCustomer, Shop::get_cust_drops\<close>

text \<open>
  These three methods index the arrays with their argument. An index outside
  \<open>[0, max_working_barb)\<close> is undefined behaviour in C++: the result \<open>None\<close>.
\<close>

definition valid_barber :: "int \<Rightarrow> shop \<Rightarrow> bool" where
  "valid_barber barbID s \<longleftrightarrow> 0 \<le> barbID \<and> barbID < max_working_barb s"

text \<open>
  One test of the \<^verbatim>\<open>while\<close> of \<^verbatim>\<open>leaveShop\<close> and what follows it: the method runs it on
  entry and again after every wake-up of line 267.
\<close>

definition leaveShop :: "int \<Rightarrow> int \<Rightarrow> shop \<Rightarrow> (unit outcome \<times> shop) option" where
  "leaveShop custID barberID s =
     (if \<not> valid_barber barberID s then None
      else if in_service s ! nat barberID = True then
        Some (Blocked (Cond_customer_served barberID), s)
      else
        Some (Returned (), s\<lparr>money_paid := (money_paid s)[nat barberID := True]\<rparr>))"

text \<open>
  One test of the \<^verbatim>\<open>while\<close> of \<^verbatim>\<open>helloCustomer\<close> (line 304): it runs after the wake-up
  of line 301 and after every wake-up of line 306.
\<close>

definition helloCustomer_wake :: "int \<Rightarrow> shop \<Rightarrow> (unit outcome \<times> shop) option" where
  "helloCustomer_wake barbID s =
     (if \<not> valid_barber barbID s then None
      else if customer_in_chair s ! nat barbID = 0 then
        Some (Blocked (Cond_barber_sleeping barbID), s)
      else Some (Returned (), s))"

definition helloCustomer :: "int \<Rightarrow> shop \<Rightarrow> (unit outcome \<times> shop) option" where
  "helloCustomer barbID s =
     (if \<not> valid_barber barbID s then None
      else if waiting_customers s = 0 \<and> customer_in_chair s ! nat barbID = 0 then
        Some (Blocked (Cond_barber_sleeping barbID), s\<lparr>sleeping_barbs := sleeping_barbs s + 1\<rparr>)
      else helloCustomer_wake barbID s)"

text \<open>Lines 329 to 339 of \<^verbatim>\<open>byeCustomer\<close>: they always end in the wait of line 339.\<close>

definition byeCustomer :: "int \<Rightarrow> shop \<Rightarrow> (unit outcome \<times> shop) option" where
  "byeCustomer barbID s =
     (if \<not> valid_barber barbID s then None
      else
        Some (Blocked (Cond_barber_paid barbID),
              s\<lparr>in_service := (in_service s)[nat barbID := False],
                money_paid := (money_paid s)[nat barbID := False]\<rparr>))"

text \<open>Lines 341 to 347: what \<^verbatim>\<open>byeCustomer\<close> does once the wait of line 339 returns.\<close>

definition byeCustomer_wake :: "int \<Rightarrow> shop \<Rightarrow> (unit outcome \<times> shop) option" where
  "byeCustomer_wake barbID s =
     (if \<not> valid_barber barbID s then None
      else
        Some (Returned (),
              s\<lparr>customer_in_chair := (customer_in_chair s)[nat barbID := 0],
                sleeping_barbs := sleeping_barbs s + 1\<rparr>))"

definition get_cust_drops :: "shop \<Rightarrow> int" where
  "get_cust_drops s = cust_drops s"

subsection \<open>Sequences of monitor steps\<close>

text \<open>
  The atomic steps the monitor offers, and their effect on the shared state in the order
  in which the mutex serialises them.
\<close>

datatype call =
  VisitShop int
  | VisitShop_wake int
  | LeaveShop int int
  | HelloCustomer int
  | HelloCustomer_wake int
  | ByeCustomer int
  | ByeCustomer_wake int
  | Get_cust_drops

fun is_visit :: "call \<Rightarrow> bool" where
  "is_visit (VisitShop custID) = True"
| "is_visit (VisitShop_wake custID) = True"
| "is_visit c = False"

fun exec :: "call \<Rightarrow> shop \<Rightarrow> shop option" where
  "exec (VisitShop custID) s = Some (snd (visitShop custID s))"
| "exec (VisitShop_wake custID) s = Some (snd (visitShop_wake custID s))"
| "exec (LeaveShop custID barberID) s = map_option snd (leaveShop custID barberID s)"
| "exec (HelloCustomer barbID) s = map_option snd (helloCustomer barbID s)"
| "exec (HelloCustomer_wake barbID) s = map_option snd (helloCustomer_wake barbID s)"
| "exec (ByeCustomer barbID) s = map_option snd (byeCustomer barbID s)"
| "exec (ByeCustomer_wake barbID) s = map_option snd (byeCustomer_wake barbID s)"
| "exec Get_cust_drops s = Some s"

fun exec_all :: "call list \<Rightarrow> shop \<Rightarrow> shop option" where
  "exec_all [] s = Some s"
| "exec_all (c # cs) s = (case exec c s of None \<Rightarrow> None | Some s' \<Rightarrow> exec_all cs s')"

subsection \<open>Sequences of calls\<close>

text \<open>
  A sequence of calls of the monitor operations by any number of threads, as the sequence
  of their atomic stretches. The stretch after a wake-up belongs to a call that is
  blocked in its wait, so the state keeps the calls that are blocked: the customers at
  line 193 of \<^verbatim>\<open>visitShop\<close>, the barbers at lines 301 and 306 of \<^verbatim>\<open>helloCustomer\<close> and
  the barbers at line 339 of \<^verbatim>\<open>byeCustomer\<close>. A blocked \<^verbatim>\<open>leaveShop\<close> goes on with the
  stretch it started with, so it needs no entry. The result \<open>None\<close> says that the step
  is no step of a sequence of calls (a wake-up with no such call blocked) or is undefined
  behaviour (an index out of range).
\<close>

record monitor =
  mon_shop :: shop
  in_visitShop :: "int list"
  in_helloCustomer :: "int list"
  in_byeCustomer :: "int list"

definition fresh :: "int \<Rightarrow> int \<Rightarrow> monitor" where
  "fresh num_barbers num_chairs =
     \<lparr>mon_shop = Shop num_barbers num_chairs,
      in_visitShop = [], in_helloCustomer = [], in_byeCustomer = []\<rparr>"

fun mon_step :: "call \<Rightarrow> monitor \<Rightarrow> monitor option" where
  "mon_step (VisitShop custID) m =
     (case visitShop custID (mon_shop m) of
        (Returned r, s') \<Rightarrow> Some (m\<lparr>mon_shop := s'\<rparr>)
      | (Blocked w, s') \<Rightarrow>
          Some (m\<lparr>mon_shop := s', in_visitShop := custID # in_visitShop m\<rparr>))"
| "mon_step (VisitShop_wake custID) m =
     (if custID \<in> set (in_visitShop m) then
        Some (m\<lparr>mon_shop := snd (visitShop_wake custID (mon_shop m)),
                 in_visitShop := remove1 custID (in_visitShop m)\<rparr>)
      else None)"
| "mon_step (LeaveShop custID barberID) m =
     (case leaveShop custID barberID (mon_shop m) of
        None \<Rightarrow> None
      | Some (r, s') \<Rightarrow> Some (m\<lparr>mon_shop := s'\<rparr>))"
| "mon_step (HelloCustomer barbID) m =
     (case helloCustomer barbID (mon_shop m) of
        None \<Rightarrow> None
      | Some (Returned u, s') \<Rightarrow> Some (m\<lparr>mon_shop := s'\<rparr>)
      | Some (Blocked w, s') \<Rightarrow>
          Some (m\<lparr>mon_shop := s', in_helloCustomer := barbID # in_helloCustomer m\<rparr>))"
| "mon_step (HelloCustomer_wake barbID) m =
     (if barbID \<in> set (in_helloCustomer m) then
        (case helloCustomer_wake barbID (mon_shop m) of
           None \<Rightarrow> None
         | Some (Returned u, s') \<Rightarrow>
             Some (m\<lparr>mon_shop := s',
                      in_helloCustomer := remove1 barbID (in_helloCustomer m)\<rparr>)
         | Some (Blocked w, s') \<Rightarrow> Some (m\<lparr>mon_shop := s'\<rparr>))
      else None)"
| "mon_step (ByeCustomer barbID) m =
     (case byeCustomer barbID (mon_shop m) of
        None \<Rightarrow> None
      | Some (Returned u, s') \<Rightarrow> Some (m\<lparr>mon_shop := s'\<rparr>)
      | Some (Blocked w, s') \<Rightarrow>
          Some (m\<lparr>mon_shop := s', in_byeCustomer := barbID # in_byeCustomer m\<rparr>))"
| "mon_step (ByeCustomer_wake barbID) m =
     (if barbID \<in> set (in_byeCustomer m) then
        (case byeCustomer_wake barbID (mon_shop m) of
           None \<Rightarrow> None
         | Some (r, s') \<Rightarrow>
             Some (m\<lparr>mon_shop := s',
                      in_byeCustomer := remove1 barbID (in_byeCustomer m)\<rparr>))
      else None)"
| "mon_step Get_cust_drops m = Some m"

fun mon_run :: "call list \<Rightarrow> monitor \<Rightarrow> monitor option" where
  "mon_run [] m = Some m"
| "mon_run (c # cs) m = (case mon_step c m of None \<Rightarrow> None | Some m' \<Rightarrow> mon_run cs m')"

text \<open>
  What the callers owe the monitor for a chair in service to have an occupant: a customer
  identifier is not 0, the value of an empty chair (\<^verbatim>\<open>print\<close>: customer IDs begin at
  +1), and \<^verbatim>\<open>byeCustomer\<close> is called for a chair that holds a customer (its documented
  precondition) while no other call of \<^verbatim>\<open>byeCustomer\<close> for that chair is blocked. The
  barber threads of the driver see to the last two: each chair has one barber thread, and
  it calls \<^verbatim>\<open>byeCustomer\<close> after \<^verbatim>\<open>helloCustomer\<close> has returned.
\<close>

fun call_ok :: "call \<Rightarrow> monitor \<Rightarrow> bool" where
  "call_ok (VisitShop custID) m \<longleftrightarrow> custID \<noteq> 0"
| "call_ok (ByeCustomer barbID) m \<longleftrightarrow>
     valid_barber barbID (mon_shop m) \<and>
     customer_in_chair (mon_shop m) ! nat barbID \<noteq> 0 \<and>
     barbID \<notin> set (in_byeCustomer m)"
| "call_ok c m \<longleftrightarrow> True"

fun calls_ok :: "call list \<Rightarrow> monitor \<Rightarrow> bool" where
  "calls_ok [] m \<longleftrightarrow> True"
| "calls_ok (c # cs) m \<longleftrightarrow>
     call_ok c m \<and> (case mon_step c m of None \<Rightarrow> True | Some m' \<Rightarrow> calls_ok cs m')"

text \<open>
  The two predicates on the shared state: the waiting chairs in use are between 0 and
  their number, and a chair in service has an occupant.
\<close>

definition waiting_bounded :: "shop \<Rightarrow> bool" where
  "waiting_bounded s \<longleftrightarrow>
     0 \<le> waiting_customers s \<and> waiting_customers s \<le> max_waiting_cust s"

definition served_has_occupant :: "shop \<Rightarrow> bool" where
  "served_has_occupant s \<longleftrightarrow>
     (\<forall>i < nat (max_working_barb s). in_service s ! i \<longrightarrow> customer_in_chair s ! i \<noteq> 0)"

text \<open>The state of the shop agrees with the calls that are blocked.\<close>

definition waiting_inv :: "monitor \<Rightarrow> bool" where
  "waiting_inv m \<longleftrightarrow>
     shop_ok (mon_shop m) \<and>
     waiting_customers (mon_shop m) = int (length (in_visitShop m)) \<and>
     waiting_customers (mon_shop m) \<le> max_waiting_cust (mon_shop m)"

definition chairs_inv :: "monitor \<Rightarrow> bool" where
  "chairs_inv m \<longleftrightarrow>
     (\<forall>i < length (in_service (mon_shop m)).
        in_service (mon_shop m) ! i \<longrightarrow> customer_in_chair (mon_shop m) ! i \<noteq> 0) \<and>
     (\<forall>c \<in> set (in_visitShop m). c \<noteq> 0) \<and>
     distinct (in_byeCustomer m) \<and>
     (\<forall>b \<in> set (in_byeCustomer m).
        valid_barber b (mon_shop m) \<and>
        customer_in_chair (mon_shop m) ! nat b \<noteq> 0 \<and>
        \<not> in_service (mon_shop m) ! nat b)"

subsection \<open>The threads of driver.cpp\<close>

text \<open>
  Where a thread of the driver stands. A customer thread calls \<^verbatim>\<open>visitShop\<close> and, unless
  it got \<open>-1\<close>, \<^verbatim>\<open>leaveShop\<close> with the value it got. A barber thread calls
  \<^verbatim>\<open>helloCustomer\<close> and \<^verbatim>\<open>byeCustomer\<close> in turn, for ever.
\<close>

datatype cust_pc =
  CStart
  | CWaiting
  | CLeave int
  | CServed
  | CDropped

datatype barb_pc =
  BHello
  | BSleeping
  | BCutting
  | BPaidWait

record sys =
  the_shop :: shop
  custs :: "cust_pc list"
  barbs :: "barb_pc list"

datatype thread = Customer nat | Barber nat

text \<open>
  \<^verbatim>\<open>main\<close> up to the creation of the threads: it rejects an argument below 1 (below 0 for
  the chairs), builds the Shop, starts barber \<open>i\<close> with the identifier \<open>i\<close> and
  customer \<open>i\<close> with the identifier \<open>i + 1\<close>.
\<close>

definition main_start :: "int \<Rightarrow> int \<Rightarrow> int \<Rightarrow> int \<Rightarrow> sys option" where
  "main_start num_barbers num_chairs num_customers service_time =
     (if num_barbers < 1 \<or> num_customers < 1 \<or> service_time < 1 then None
      else if num_chairs < 0 then None
      else Some \<lparr>the_shop = Shop num_barbers num_chairs,
                 custs = replicate (nat num_customers) CStart,
                 barbs = replicate (nat num_barbers) BHello\<rparr>)"

text \<open>The next atomic step of the customer thread with index \<open>k\<close> (\<^verbatim>\<open>customer\<close>, lines 117 to 129).\<close>

definition after_visit :: "nat \<Rightarrow> int \<Rightarrow> shop \<Rightarrow> sys \<Rightarrow> sys" where
  "after_visit k barbID s' st =
     st\<lparr>the_shop := s',
        custs := (custs st)[k := (if barbID \<noteq> - 1 then CLeave barbID else CDropped)]\<rparr>"

definition customer_step :: "nat \<Rightarrow> sys \<Rightarrow> sys option" where
  "customer_step k st =
     (if k \<ge> length (custs st) then Some st
      else
        (case custs st ! k of
           CStart \<Rightarrow>
             (case visitShop (int k + 1) (the_shop st) of
                (Returned barbID, s') \<Rightarrow> Some (after_visit k barbID s' st)
              | (Blocked c, s') \<Rightarrow> Some (st\<lparr>the_shop := s', custs := (custs st)[k := CWaiting]\<rparr>))
         | CWaiting \<Rightarrow>
             (case visitShop_wake (int k + 1) (the_shop st) of
                (barbID, s') \<Rightarrow> Some (after_visit k barbID s' st))
         | CLeave barbID \<Rightarrow>
             (case leaveShop (int k + 1) barbID (the_shop st) of
                None \<Rightarrow> None
              | Some (Returned u, s') \<Rightarrow> Some (st\<lparr>the_shop := s', custs := (custs st)[k := CServed]\<rparr>)
              | Some (Blocked c, s') \<Rightarrow> Some (st\<lparr>the_shop := s'\<rparr>))
         | CServed \<Rightarrow> Some st
         | CDropped \<Rightarrow> Some st))"

text \<open>The next atomic step of the barber thread with index \<open>i\<close> (\<^verbatim>\<open>barber\<close>, lines 101 to 115).\<close>

definition barber_step :: "nat \<Rightarrow> sys \<Rightarrow> sys option" where
  "barber_step i st =
     (if i \<ge> length (barbs st) then Some st
      else
        (case barbs st ! i of
           BHello \<Rightarrow>
             (case helloCustomer (int i) (the_shop st) of
                None \<Rightarrow> None
              | Some (Returned u, s') \<Rightarrow> Some (st\<lparr>the_shop := s', barbs := (barbs st)[i := BCutting]\<rparr>)
              | Some (Blocked c, s') \<Rightarrow> Some (st\<lparr>the_shop := s', barbs := (barbs st)[i := BSleeping]\<rparr>))
         | BSleeping \<Rightarrow>
             (case helloCustomer_wake (int i) (the_shop st) of
                None \<Rightarrow> None
              | Some (Returned u, s') \<Rightarrow> Some (st\<lparr>the_shop := s', barbs := (barbs st)[i := BCutting]\<rparr>)
              | Some (Blocked c, s') \<Rightarrow> Some (st\<lparr>the_shop := s'\<rparr>))
         | BCutting \<Rightarrow>
             (case byeCustomer (int i) (the_shop st) of
                None \<Rightarrow> None
              | Some (Returned u, s') \<Rightarrow> Some (st\<lparr>the_shop := s', barbs := (barbs st)[i := BHello]\<rparr>)
              | Some (Blocked c, s') \<Rightarrow> Some (st\<lparr>the_shop := s', barbs := (barbs st)[i := BPaidWait]\<rparr>))
         | BPaidWait \<Rightarrow>
             (case byeCustomer_wake (int i) (the_shop st) of
                None \<Rightarrow> None
              | Some (Returned u, s') \<Rightarrow> Some (st\<lparr>the_shop := s', barbs := (barbs st)[i := BHello]\<rparr>)
              | Some (Blocked c, s') \<Rightarrow> Some (st\<lparr>the_shop := s'\<rparr>))))"

fun thread_step :: "thread \<Rightarrow> sys \<Rightarrow> sys option" where
  "thread_step (Customer k) st = customer_step k st"
| "thread_step (Barber i) st = barber_step i st"

text \<open>
  An interleaving is the list of the threads in the order in which they take the mutex;
  \<open>None\<close> is undefined behaviour.
\<close>

fun run :: "thread list \<Rightarrow> sys \<Rightarrow> sys option" where
  "run [] st = Some st"
| "run (t # ts) st = (case thread_step t st of None \<Rightarrow> None | Some st' \<Rightarrow> run ts st')"


subsection \<open>States for the examples\<close>

text \<open>Three barbers, two waiting chairs, customer 3 in the first service chair.\<close>

definition shop_one_taken :: shop where
  "shop_one_taken =
     \<lparr>max_waiting_cust = 2, max_working_barb = 3, waiting_customers = 0,
      sleeping_barbs = 2, cust_drops = 0,
      customer_in_chair = [3, 0, 0],
      in_service = [True, False, False],
      money_paid = [False, False, False]\<rparr>"

text \<open>Two barbers, both busy, one waiting chair, nobody waiting.\<close>

definition shop_busy :: shop where
  "shop_busy =
     \<lparr>max_waiting_cust = 1, max_working_barb = 2, waiting_customers = 0,
      sleeping_barbs = 0, cust_drops = 0,
      customer_in_chair = [4, 5],
      in_service = [True, False],
      money_paid = [False, False]\<rparr>"

text \<open>Two barbers, both busy, one waiting chair, taken.\<close>

definition shop_full :: shop where
  "shop_full = shop_busy\<lparr>waiting_customers := 1\<rparr>"

text \<open>Two barbers, both busy, no waiting chair.\<close>

definition shop_no_chairs :: shop where
  "shop_no_chairs = shop_busy\<lparr>max_waiting_cust := 0\<rparr>"

text \<open>As \<open>shop_full\<close>, after the second barber has cleared his chair.\<close>

definition shop_freed :: shop where
  "shop_freed = shop_full\<lparr>customer_in_chair := [4, 0]\<rparr>"

text \<open>As \<open>shop_one_taken\<close>, with both waiting chairs counted as taken.\<close>

definition shop_chairs_taken :: shop where
  "shop_chairs_taken = shop_one_taken\<lparr>waiting_customers := 2\<rparr>"



section \<open>Construction\<close>

lemma init_loop_fields:
  "max_waiting_cust (init_loop i s) = max_waiting_cust s \<and>
   max_working_barb (init_loop i s) = max_working_barb s \<and>
   waiting_customers (init_loop i s) = waiting_customers s \<and>
   sleeping_barbs (init_loop i s) = sleeping_barbs s \<and>
   cust_drops (init_loop i s) = cust_drops s"
proof (induction i s rule: init_loop.induct)
  case (1 i s)
  show ?case
  proof (cases "i < max_working_barb s")
    case True
    with 1 show ?thesis by (subst (1 2 3 4 5) init_loop.simps) simp
  next
    case False
    then show ?thesis by (subst (1 2 3 4 5) init_loop.simps) simp
  qed
qed

text \<open>
  C8. The two-argument constructor keeps \<open>num_barbers\<close> when it is positive and takes the
  default 1 otherwise, keeps \<open>num_chairs\<close> when it is not negative and takes the default 3
  otherwise; the zero-argument constructor takes both defaults. The constructor is a
  total function into the shop states: there is no error result, a bad argument is
  replaced.
\<close>

theorem Shop_capacities:
  "max_working_barb (Shop num_barbers num_chairs) = (if num_barbers > 0 then num_barbers else 1) \<and>
   max_waiting_cust (Shop num_barbers num_chairs) = (if num_chairs \<ge> 0 then num_chairs else 3) \<and>
   max_working_barb Shop_default = 1 \<and>
   max_waiting_cust Shop_default = 3"
  by (simp add: Shop_def Shop_default_def init_def init_loop_fields members_def
      kDefaultNumChairs_def kDefaultBarbers_def)

theorem Shop_capacities_witness:
  "max_working_barb (Shop 4 2) = 4 \<and> max_waiting_cust (Shop 4 2) = 2 \<and>
   max_working_barb (Shop 0 (- 1)) = 1 \<and> max_waiting_cust (Shop 0 (- 1)) = 3 \<and>
   max_working_barb (Shop (- 5) 0) = 1 \<and> max_waiting_cust (Shop (- 5) 0) = 0"
  using Shop_capacities [of 4 2] Shop_capacities [of 0 "- 1"] Shop_capacities [of "- 5" 0]
  by simp

lemma init_loop_lengths:
  "length (customer_in_chair (init_loop i s)) = length (customer_in_chair s) \<and>
   length (in_service (init_loop i s)) = length (in_service s) \<and>
   length (money_paid (init_loop i s)) = length (money_paid s)"
proof (induction i s rule: init_loop.induct)
  case (1 i s)
  show ?case
  proof (cases "i < max_working_barb s")
    case True
    with 1 show ?thesis by (subst (1 2 3) init_loop.simps) simp
  next
    case False
    then show ?thesis by (subst (1 2 3) init_loop.simps) simp
  qed
qed

lemma init_loop_nth:
  "0 \<le> i \<Longrightarrow> k < nat (max_working_barb s) \<Longrightarrow>
   length (customer_in_chair s) = nat (max_working_barb s) \<Longrightarrow>
   length (in_service s) = nat (max_working_barb s) \<Longrightarrow>
   length (money_paid s) = nat (max_working_barb s) \<Longrightarrow>
   customer_in_chair (init_loop i s) ! k = (if nat i \<le> k then 0 else customer_in_chair s ! k) \<and>
   in_service (init_loop i s) ! k = (if nat i \<le> k then False else in_service s ! k) \<and>
   money_paid (init_loop i s) ! k = (if nat i \<le> k then False else money_paid s ! k)"
proof (induction i s rule: init_loop.induct)
  case (1 i s)
  show ?case
  proof (cases "i < max_working_barb s")
    case True
    let ?s = "s\<lparr>customer_in_chair := (customer_in_chair s)[nat i := 0],
             in_service := (in_service s)[nat i := False],
             money_paid := (money_paid s)[nat i := False]\<rparr>"
    have eq: "init_loop i s = init_loop (i + 1) ?s"
      using True by (subst init_loop.simps) simp
    have ih: "customer_in_chair (init_loop (i + 1) ?s) ! k = (if nat (i + 1) \<le> k then 0 else customer_in_chair ?s ! k) \<and>
   in_service (init_loop (i + 1) ?s) ! k = (if nat (i + 1) \<le> k then False else in_service ?s ! k) \<and>
   money_paid (init_loop (i + 1) ?s) ! k = (if nat (i + 1) \<le> k then False else money_paid ?s ! k)"
      using 1 True by simp
    have "nat (i + 1) = Suc (nat i)" using 1(2) by simp
    then show ?thesis using ih 1(2-) True unfolding eq
      by (auto simp: nth_list_update not_less_eq_eq)
  next
    case False
    then have "init_loop i s = s" by (subst init_loop.simps) simp
    then show ?thesis using False 1(2-) by auto
  qed
qed

lemma Shop_arrays:
  "customer_in_chair (Shop nb nc) = replicate (nat (max_working_barb (Shop nb nc))) 0 \<and>
   in_service (Shop nb nc) = replicate (nat (max_working_barb (Shop nb nc))) False \<and>
   money_paid (Shop nb nc) = replicate (nat (max_working_barb (Shop nb nc))) False"
  unfolding Shop_def init_def
  apply (intro conjI)
  apply (rule nth_equalityI; simp add: init_loop_lengths init_loop_fields init_loop_nth members_def)+
  done

lemma Shop_counters:
  "max_working_barb (Shop nb nc) = (if nb > 0 then nb else 1) \<and>
   max_waiting_cust (Shop nb nc) = (if nc \<ge> 0 then nc else 3) \<and>
   waiting_customers (Shop nb nc) = 0 \<and> sleeping_barbs (Shop nb nc) = 0 \<and>
   cust_drops (Shop nb nc) = 0"
  by (simp add: Shop_def init_def init_loop_fields members_def
      kDefaultNumChairs_def kDefaultBarbers_def)

lemma Shop_eq:
  "Shop nb nc =
     \<lparr>max_waiting_cust = (if nc \<ge> 0 then nc else 3),
      max_working_barb = (if nb > 0 then nb else 1),
      waiting_customers = 0, sleeping_barbs = 0, cust_drops = 0,
      customer_in_chair = replicate (nat (if nb > 0 then nb else 1)) 0,
      in_service = replicate (nat (if nb > 0 then nb else 1)) False,
      money_paid = replicate (nat (if nb > 0 then nb else 1)) False\<rparr>"
  using Shop_arrays [of nb nc] Shop_counters [of nb nc]
  by (intro shop.equality) simp_all

lemma Shop_ok: "shop_ok (Shop nb nc)"
  by (simp add: Shop_eq shop_ok_def)

section \<open>Assigning a chair\<close>

lemma assignBarber_loop_spec:
  "0 \<le> b \<Longrightarrow>
   assignBarber_loop c b s = (r, s') \<Longrightarrow>
   (r = - 1 \<and> s' = s \<and> (\<forall>k. nat b \<le> k \<and> k < nat (max_working_barb s) \<longrightarrow> customer_in_chair s ! k \<noteq> 0)) \<or>
   (b \<le> r \<and> r < max_working_barb s \<and> customer_in_chair s ! nat r = 0 \<and>
    (\<forall>k. nat b \<le> k \<and> k < nat r \<longrightarrow> customer_in_chair s ! k \<noteq> 0) \<and>
    s' = s\<lparr>customer_in_chair := (customer_in_chair s)[nat r := c],
           sleeping_barbs := sleeping_barbs s - 1\<rparr>)"
proof (induction c b s rule: assignBarber_loop.induct)
  case (1 c b s)
  show ?case
  proof (cases "b < max_working_barb s")
    case False
    then have "assignBarber_loop c b s = (- 1, s)"
      by (subst assignBarber_loop.simps) simp
    with 1(2-) False show ?thesis by auto
  next
    case True
    show ?thesis
    proof (cases "customer_in_chair s ! nat b = 0")
      case empty: True
      have "assignBarber_loop c b s =
          (b, s\<lparr>customer_in_chair := (customer_in_chair s)[nat b := c],
                 sleeping_barbs := sleeping_barbs s - 1\<rparr>)"
        using True empty by (subst assignBarber_loop.simps) simp
      with 1(3) True empty show ?thesis by auto
    next
      case taken: False
      have eq: "assignBarber_loop c b s = assignBarber_loop c (b + 1) s"
        using True taken by (subst assignBarber_loop.simps) simp
      have ih: "(r = - 1 \<and> s' = s \<and> (\<forall>k. nat (b + 1) \<le> k \<and> k < nat (max_working_barb s) \<longrightarrow> customer_in_chair s ! k \<noteq> 0)) \<or>
   (b + 1 \<le> r \<and> r < max_working_barb s \<and> customer_in_chair s ! nat r = 0 \<and>
    (\<forall>k. nat (b + 1) \<le> k \<and> k < nat r \<longrightarrow> customer_in_chair s ! k \<noteq> 0) \<and>
    s' = s\<lparr>customer_in_chair := (customer_in_chair s)[nat r := c],
           sleeping_barbs := sleeping_barbs s - 1\<rparr>)"
        using 1(1) [OF True taken] 1(2-) eq by simp
      have suc: "nat (b + 1) = Suc (nat b)" using 1(2) by simp
      have step: "\<And>k. nat b \<le> k \<Longrightarrow> k = nat b \<or> Suc (nat b) \<le> k" by arith
      from ih show ?thesis
      proof
        assume a: "r = - 1 \<and> s' = s \<and> (\<forall>k. nat (b + 1) \<le> k \<and> k < nat (max_working_barb s) \<longrightarrow> customer_in_chair s ! k \<noteq> 0)"
        have "\<forall>k. nat b \<le> k \<and> k < nat (max_working_barb s) \<longrightarrow> customer_in_chair s ! k \<noteq> 0"
          using a taken suc step by metis
        with a show ?thesis by simp
      next
        assume a: "b + 1 \<le> r \<and> r < max_working_barb s \<and> customer_in_chair s ! nat r = 0 \<and>
    (\<forall>k. nat (b + 1) \<le> k \<and> k < nat r \<longrightarrow> customer_in_chair s ! k \<noteq> 0) \<and>
    s' = s\<lparr>customer_in_chair := (customer_in_chair s)[nat r := c],
           sleeping_barbs := sleeping_barbs s - 1\<rparr>"
        have "\<forall>k. nat b \<le> k \<and> k < nat r \<longrightarrow> customer_in_chair s ! k \<noteq> 0"
          using a taken suc step by metis
        with a show ?thesis by simp
      qed
    qed
  qed
qed

lemma all_occupied_nth:
  "all_occupied s \<longleftrightarrow> (\<forall>k < length (customer_in_chair s). customer_in_chair s ! k \<noteq> 0)"
  by (simp add: all_occupied_def list_all_length)

lemma assignBarber_cases [consumes 1, case_names none slot]:
  assumes ok: "shop_ok s"
  obtains
    (none) "all_occupied s" and "assignBarber c s = (- 1, s)"
  | (slot) i where "i < length (customer_in_chair s)" and "customer_in_chair s ! i = 0"
      and "\<forall>k < i. customer_in_chair s ! k \<noteq> 0" and "\<not> all_occupied s"
      and "assignBarber c s =
             (int i, s\<lparr>customer_in_chair := (customer_in_chair s)[i := c],
                        sleeping_barbs := sleeping_barbs s - 1\<rparr>)"
proof -
  obtain r s' where rs: "assignBarber_loop c 0 s = (r, s')"
    by (cases "assignBarber_loop c 0 s")
  have len: "length (customer_in_chair s) = nat (max_working_barb s)"
    using ok by (simp add: shop_ok_def)
  from assignBarber_loop_spec [OF _ rs]
  consider
    (a) "r = - 1" "s' = s" "\<forall>k. k < nat (max_working_barb s) \<longrightarrow> customer_in_chair s ! k \<noteq> 0"
  | (b) "0 \<le> r" "r < max_working_barb s" "customer_in_chair s ! nat r = 0"
      "\<forall>k. k < nat r \<longrightarrow> customer_in_chair s ! k \<noteq> 0"
      "s' = s\<lparr>customer_in_chair := (customer_in_chair s)[nat r := c],
           sleeping_barbs := sleeping_barbs s - 1\<rparr>"
    by auto
  then show thesis
  proof cases
    case a
    then show ?thesis
      using none rs len by (simp add: assignBarber_def all_occupied_nth)
  next
    case b
    have lt: "nat r < length (customer_in_chair s)" using b len by simp
    have "\<not> all_occupied s" using b(3) lt by (auto simp: all_occupied_nth)
    moreover have "assignBarber c s =
             (int (nat r), s\<lparr>customer_in_chair := (customer_in_chair s)[nat r := c],
                        sleeping_barbs := sleeping_barbs s - 1\<rparr>)"
      using rs b by (simp add: assignBarber_def)
    ultimately show ?thesis using slot [of "nat r"] b lt by simp
  qed
qed

text \<open>
  C2. On a shop whose arrays have \<open>max_working_barb\<close> elements, \<open>assignBarber\<close> returns
  \<open>-1\<close> exactly when every chair holds a customer, and then changes nothing; otherwise it
  returns the lowest index whose chair is empty (every lower index is taken), writes
  \<open>custID\<close> into that entry of \<open>customer_in_chair\<close> and into no other, and leaves
  \<open>in_service\<close> and \<open>money_paid\<close> alone.
\<close>

theorem assignBarber_first_empty:
  assumes "shop_ok s" and "assignBarber custID s = (r, s')"
  shows "(r = - 1 \<longleftrightarrow> all_occupied s) \<and>
         (r = - 1 \<longrightarrow> s' = s) \<and>
         (r \<noteq> - 1 \<longrightarrow>
            0 \<le> r \<and> r < max_working_barb s \<and>
            customer_in_chair s ! nat r = 0 \<and>
            (\<forall>k < nat r. customer_in_chair s ! k \<noteq> 0) \<and>
            customer_in_chair s' = (customer_in_chair s)[nat r := custID] \<and>
            in_service s' = in_service s \<and> money_paid s' = money_paid s)"
  using assms(1)
proof (cases rule: assignBarber_cases [where c = custID])
  case none
  with assms(2) show ?thesis by simp
next
  case (slot i)
  with assms show ?thesis by (auto simp: shop_ok_def)
qed

lemma shop_one_taken_ok: "shop_ok shop_one_taken"
  by (simp add: shop_ok_def shop_one_taken_def)

lemma shop_busy_ok: "shop_ok shop_busy"
  by (simp add: shop_ok_def shop_busy_def)

lemma assignBarber_one_taken:
  "assignBarber 9 shop_one_taken =
     (1, shop_one_taken\<lparr>customer_in_chair := [3, 9, 0], sleeping_barbs := 1\<rparr>)"
  by (simp add: assignBarber_def assignBarber_loop.simps shop_one_taken_def)

lemma assignBarber_busy: "assignBarber 9 shop_busy = (- 1, shop_busy)"
  by (simp add: assignBarber_def assignBarber_loop.simps shop_busy_def)

theorem assignBarber_first_empty_witness:
  "shop_ok shop_one_taken \<and> fst (assignBarber 9 shop_one_taken) = 1 \<and>
   \<not> all_occupied shop_one_taken \<and>
   customer_in_chair (snd (assignBarber 9 shop_one_taken)) = [3, 9, 0] \<and>
   shop_ok shop_busy \<and> assignBarber 9 shop_busy = (- 1, shop_busy) \<and> all_occupied shop_busy"
proof -
  have r: "assignBarber 9 shop_one_taken =
     (1, shop_one_taken\<lparr>customer_in_chair := [3, 9, 0], sleeping_barbs := 1\<rparr>)"
    by (rule assignBarber_one_taken)
  from assignBarber_first_empty [OF shop_one_taken_ok r]
    assignBarber_first_empty [OF shop_busy_ok assignBarber_busy]
    shop_one_taken_ok shop_busy_ok r assignBarber_busy
  show ?thesis by (simp add: shop_one_taken_def)
qed

section \<open>Visiting the shop\<close>

lemma visitShop_all_occupied:
  assumes "shop_ok s" and "all_occupied s"
  shows "visitShop c s =
     (if max_waiting_cust s = 0 \<or> max_waiting_cust s = waiting_customers s
      then (Returned (- 1), s\<lparr>cust_drops := cust_drops s + 1\<rparr>)
      else (Blocked Cond_customers_waiting, s\<lparr>waiting_customers := waiting_customers s + 1\<rparr>))"
  using assms(1)
proof (cases rule: assignBarber_cases [where c = c])
  case none
  then show ?thesis by (simp add: visitShop_def)
next
  case (slot i)
  with assms(2) show ?thesis by simp
qed

lemma visitShop_chair:
  assumes "shop_ok s" and "i < length (customer_in_chair s)"
    and "customer_in_chair s ! i = 0" and "\<forall>k < i. customer_in_chair s ! k \<noteq> 0"
  shows "visitShop c s =
     (if max_waiting_cust s \<noteq> 0 \<and> max_waiting_cust s = waiting_customers s
      then (Returned (- 1), s\<lparr>cust_drops := cust_drops s + 1\<rparr>)
      else (Returned (int i),
            s\<lparr>customer_in_chair := (customer_in_chair s)[i := c],
              sleeping_barbs := sleeping_barbs s - 1,
              in_service := (in_service s)[i := True]\<rparr>))"
  using assms(1)
proof (cases rule: assignBarber_cases [where c = c])
  case none
  with assms(2,3) show ?thesis by (auto simp: all_occupied_nth)
next
  case (slot j)
  have "j = i"
  proof (rule ccontr)
    assume "j \<noteq> i"
    then consider "j < i" | "i < j" by arith
    then show False using slot(2,3) assms(3,4) by cases auto
  qed
  with slot(5) show ?thesis by (simp add: visitShop_def sit_down_def)
qed

lemma visitShop_wake_all_occupied:
  assumes "shop_ok s" and "all_occupied s"
  shows "visitShop_wake c s =
     (- 1, s\<lparr>cust_drops := cust_drops s + 1, waiting_customers := waiting_customers s - 1\<rparr>)"
  using assms(1)
proof (cases rule: assignBarber_cases [where c = c])
  case none
  then show ?thesis by (simp add: visitShop_wake_def)
next
  case (slot i)
  with assms(2) show ?thesis by simp
qed

lemma visitShop_wake_chair:
  assumes "shop_ok s" and "i < length (customer_in_chair s)"
    and "customer_in_chair s ! i = 0" and "\<forall>k < i. customer_in_chair s ! k \<noteq> 0"
  shows "visitShop_wake c s =
     (int i,
      s\<lparr>customer_in_chair := (customer_in_chair s)[i := c],
        sleeping_barbs := sleeping_barbs s - 1,
        waiting_customers := waiting_customers s - 1,
        in_service := (in_service s)[i := True]\<rparr>)"
  using assms(1)
proof (cases rule: assignBarber_cases [where c = c])
  case none
  with assms(2,3) show ?thesis by (auto simp: all_occupied_nth)
next
  case (slot j)
  have "j = i"
  proof (rule ccontr)
    assume "j \<noteq> i"
    then consider "j < i" | "i < j" by arith
    then show False using slot(2,3) assms(3,4) by cases auto
  qed
  with slot(5) show ?thesis by (simp add: visitShop_wake_def sit_down_def)
qed

lemma first_empty_chair:
  assumes "\<not> all_occupied s"
  obtains i where "i < length (customer_in_chair s)" and "customer_in_chair s ! i = 0"
    and "\<forall>k < i. customer_in_chair s ! k \<noteq> 0"
proof -
  let ?P = "\<lambda>i. i < length (customer_in_chair s) \<and> customer_in_chair s ! i = 0"
  from assms have ex: "\<exists>i. ?P i" by (auto simp: all_occupied_nth)
  have "?P (LEAST i. ?P i)" using ex by (rule LeastI_ex)
  moreover have "\<forall>k < (LEAST i. ?P i). customer_in_chair s ! k \<noteq> 0"
  proof (intro allI impI)
    fix k assume k: "k < (LEAST i. ?P i)"
    then have "\<not> ?P k" by (rule not_less_Least)
    moreover have "k < length (customer_in_chair s)" using k \<open>?P (LEAST i. ?P i)\<close> by simp
    ultimately show "customer_in_chair s ! k \<noteq> 0" by simp
  qed
  ultimately show thesis using that by blast
qed

text \<open>
  C4. The first stretch of \<open>visitShop\<close> returns \<open>-1\<close> (it does not reach the wait) in
  exactly two cases: there are no waiting chairs and every service chair is taken, or
  there are waiting chairs and all of them are taken. In both the state it leaves is the
  state it found with \<open>cust_drops\<close> one higher: \<open>waiting_customers\<close> and the three arrays
  are as before. The second case does not look at the service chairs at all.
\<close>

theorem visitShop_drop_without_blocking:
  assumes "shop_ok s"
  shows "(fst (visitShop custID s) = Returned (- 1) \<longleftrightarrow>
            (max_waiting_cust s = 0 \<and> all_occupied s) \<or>
            (max_waiting_cust s > 0 \<and> waiting_customers s = max_waiting_cust s)) \<and>
         (fst (visitShop custID s) = Returned (- 1) \<longrightarrow>
            snd (visitShop custID s) = s\<lparr>cust_drops := cust_drops s + 1\<rparr>)"
proof (cases "all_occupied s")
  case True
  from visitShop_all_occupied [OF assms True, of custID] assms True
  show ?thesis by (auto simp: shop_ok_def)
next
  case False
  then obtain i where i: "i < length (customer_in_chair s)" "customer_in_chair s ! i = 0"
    "\<forall>k < i. customer_in_chair s ! k \<noteq> 0" by (rule first_empty_chair)
  from visitShop_chair [OF assms i, of custID] assms False
  show ?thesis by (auto simp: shop_ok_def)
qed

text \<open>
  C3. With waiting chairs, one of them free, and every service chair taken, \<open>visitShop\<close>
  adds one to \<open>waiting_customers\<close> and blocks on \<open>cond_customers_waiting_\<close>. The stretch
  after the wake-up, run in the state \<open>t\<close> the shop has by then, calls \<open>assignBarber\<close>
  once and returns in either case: with every chair taken it takes one from
  \<open>waiting_customers\<close>, adds one to \<open>cust_drops\<close> and returns \<open>-1\<close>; otherwise it takes
  one from \<open>waiting_customers\<close>, sets \<open>in_service\<close> of the chair it got and returns its
  index. \<open>visitShop_wake\<close> has no \<open>Blocked\<close> result: the customer never waits twice.
\<close>

theorem visitShop_wait_then_one_retry:
  assumes "shop_ok s" and "max_waiting_cust s > 0"
    and "waiting_customers s \<noteq> max_waiting_cust s" and "all_occupied s"
    and "shop_ok t"
  shows "visitShop custID s =
           (Blocked Cond_customers_waiting, s\<lparr>waiting_customers := waiting_customers s + 1\<rparr>) \<and>
         (all_occupied t \<longrightarrow>
            visitShop_wake custID t =
              (- 1, t\<lparr>waiting_customers := waiting_customers t - 1,
                       cust_drops := cust_drops t + 1\<rparr>)) \<and>
         (\<not> all_occupied t \<longrightarrow>
            (\<exists>i < length (customer_in_chair t).
               customer_in_chair t ! i = 0 \<and> (\<forall>k < i. customer_in_chair t ! k \<noteq> 0) \<and>
               visitShop_wake custID t =
                 (int i,
                  t\<lparr>waiting_customers := waiting_customers t - 1,
                    customer_in_chair := (customer_in_chair t)[i := custID],
                    in_service := (in_service t)[i := True],
                    sleeping_barbs := sleeping_barbs t - 1\<rparr>)))"
proof (intro conjI impI)
  show "visitShop custID s =
           (Blocked Cond_customers_waiting, s\<lparr>waiting_customers := waiting_customers s + 1\<rparr>)"
    using visitShop_all_occupied [OF assms(1,4), of custID] assms(2,3) by auto
next
  assume "all_occupied t"
  then show "visitShop_wake custID t =
              (- 1, t\<lparr>waiting_customers := waiting_customers t - 1,
                       cust_drops := cust_drops t + 1\<rparr>)"
    using visitShop_wake_all_occupied [OF assms(5), of custID] by simp
next
  assume "\<not> all_occupied t"
  then obtain i where i: "i < length (customer_in_chair t)" "customer_in_chair t ! i = 0"
    "\<forall>k < i. customer_in_chair t ! k \<noteq> 0" by (rule first_empty_chair)
  from visitShop_wake_chair [OF assms(5) i, of custID] i
  show "\<exists>i < length (customer_in_chair t).
               customer_in_chair t ! i = 0 \<and> (\<forall>k < i. customer_in_chair t ! k \<noteq> 0) \<and>
               visitShop_wake custID t =
                 (int i,
                  t\<lparr>waiting_customers := waiting_customers t - 1,
                    customer_in_chair := (customer_in_chair t)[i := custID],
                    in_service := (in_service t)[i := True],
                    sleeping_barbs := sleeping_barbs t - 1\<rparr>)"
    by auto
qed


lemma shop_examples_ok:
  "shop_ok shop_full" "shop_ok shop_no_chairs" "shop_ok shop_freed" "shop_ok shop_chairs_taken"
  by (simp_all add: shop_ok_def shop_full_def shop_no_chairs_def shop_freed_def
      shop_chairs_taken_def shop_busy_def shop_one_taken_def)

lemma shop_examples_occupied:
  "all_occupied shop_busy" "all_occupied shop_full" "all_occupied shop_no_chairs"
  "\<not> all_occupied shop_freed" "\<not> all_occupied shop_chairs_taken" "\<not> all_occupied shop_one_taken"
  by (simp_all add: all_occupied_def shop_full_def shop_no_chairs_def shop_freed_def
      shop_chairs_taken_def shop_busy_def shop_one_taken_def)

theorem visitShop_drop_without_blocking_witness:
  "shop_ok shop_no_chairs \<and> shop_ok shop_full \<and> shop_ok shop_chairs_taken \<and> shop_ok shop_busy \<and>
   visitShop 8 shop_no_chairs = (Returned (- 1), shop_no_chairs\<lparr>cust_drops := 1\<rparr>) \<and>
   visitShop 8 shop_full = (Returned (- 1), shop_full\<lparr>cust_drops := 1\<rparr>) \<and>
   visitShop 8 shop_chairs_taken = (Returned (- 1), shop_chairs_taken\<lparr>cust_drops := 1\<rparr>) \<and>
   fst (visitShop 8 shop_busy) \<noteq> Returned (- 1)"
proof -
  have a: "max_waiting_cust shop_no_chairs = 0" "cust_drops shop_no_chairs = 0"
    "max_waiting_cust shop_full = 1" "waiting_customers shop_full = 1" "cust_drops shop_full = 0"
    "max_waiting_cust shop_chairs_taken = 2" "waiting_customers shop_chairs_taken = 2"
    "cust_drops shop_chairs_taken = 0"
    "max_waiting_cust shop_busy = 1" "waiting_customers shop_busy = 0"
    by (simp_all add: shop_full_def shop_no_chairs_def shop_chairs_taken_def shop_busy_def
        shop_one_taken_def)
  from visitShop_drop_without_blocking [OF shop_examples_ok(2), of 8]
    visitShop_drop_without_blocking [OF shop_examples_ok(1), of 8]
    visitShop_drop_without_blocking [OF shop_examples_ok(4), of 8]
    visitShop_drop_without_blocking [OF shop_busy_ok, of 8]
  show ?thesis
    using shop_examples_ok shop_busy_ok shop_examples_occupied a
    by (simp add: prod_eq_iff)
qed

theorem visitShop_wait_then_one_retry_witness:
  "shop_ok shop_busy \<and> max_waiting_cust shop_busy > 0 \<and>
   waiting_customers shop_busy \<noteq> max_waiting_cust shop_busy \<and> all_occupied shop_busy \<and>
   shop_ok shop_full \<and> all_occupied shop_full \<and> shop_ok shop_freed \<and> \<not> all_occupied shop_freed \<and>
   visitShop 8 shop_busy = (Blocked Cond_customers_waiting, shop_full) \<and>
   visitShop_wake 8 shop_full = (- 1, shop_busy\<lparr>cust_drops := 1\<rparr>) \<and>
   (\<exists>i < length (customer_in_chair shop_freed).
      customer_in_chair shop_freed ! i = 0 \<and>
      visitShop_wake 8 shop_freed =
        (int i, shop_freed\<lparr>waiting_customers := waiting_customers shop_freed - 1,
                    customer_in_chair := (customer_in_chair shop_freed)[i := 8],
                    in_service := (in_service shop_freed)[i := True],
                    sleeping_barbs := sleeping_barbs shop_freed - 1\<rparr>))"
proof -
  have a: "max_waiting_cust shop_busy > 0" "waiting_customers shop_busy \<noteq> max_waiting_cust shop_busy"
    by (simp_all add: shop_busy_def)
  from visitShop_wait_then_one_retry [OF shop_busy_ok a shop_examples_occupied(1) shop_examples_ok(1), of 8]
    visitShop_wait_then_one_retry [OF shop_busy_ok a shop_examples_occupied(1) shop_examples_ok(3), of 8]
  show ?thesis
    using shop_examples_ok shop_busy_ok shop_examples_occupied a
    by (auto simp: shop_full_def shop_busy_def)
qed

section \<open>The drop counter\<close>

lemma visitShop_effect:
  assumes "shop_ok s"
  shows "shop_ok (snd (visitShop c s)) \<and>
         max_working_barb (snd (visitShop c s)) = max_working_barb s \<and>
         max_waiting_cust (snd (visitShop c s)) = max_waiting_cust s \<and>
         (case fst (visitShop c s) of
            Returned r \<Rightarrow>
              (r = - 1 \<or> 0 \<le> r \<and> r < max_working_barb s) \<and>
              cust_drops (snd (visitShop c s)) = cust_drops s + (if r = - 1 then 1 else 0)
          | Blocked w \<Rightarrow> cust_drops (snd (visitShop c s)) = cust_drops s)"
proof (cases "all_occupied s")
  case True
  from visitShop_all_occupied [OF assms True, of c] assms
  show ?thesis by (auto simp: shop_ok_def)
next
  case False
  then obtain i where i: "i < length (customer_in_chair s)" "customer_in_chair s ! i = 0"
    "\<forall>k < i. customer_in_chair s ! k \<noteq> 0" by (rule first_empty_chair)
  from visitShop_chair [OF assms i, of c] assms i(1)
  show ?thesis by (auto simp: shop_ok_def)
qed

lemma visitShop_wake_effect:
  assumes "shop_ok s"
  shows "shop_ok (snd (visitShop_wake c s)) \<and>
         max_working_barb (snd (visitShop_wake c s)) = max_working_barb s \<and>
         max_waiting_cust (snd (visitShop_wake c s)) = max_waiting_cust s \<and>
         (fst (visitShop_wake c s) = - 1 \<or>
          0 \<le> fst (visitShop_wake c s) \<and> fst (visitShop_wake c s) < max_working_barb s) \<and>
         cust_drops (snd (visitShop_wake c s)) =
           cust_drops s + (if fst (visitShop_wake c s) = - 1 then 1 else 0)"
proof (cases "all_occupied s")
  case True
  from visitShop_wake_all_occupied [OF assms True, of c] assms
  show ?thesis by (auto simp: shop_ok_def)
next
  case False
  then obtain i where i: "i < length (customer_in_chair s)" "customer_in_chair s ! i = 0"
    "\<forall>k < i. customer_in_chair s ! k \<noteq> 0" by (rule first_empty_chair)
  from visitShop_wake_chair [OF assms i, of c] assms i(1)
  show ?thesis by (auto simp: shop_ok_def)
qed

lemma barber_calls_effect:
  assumes "shop_ok s"
    and "leaveShop c b s = Some r \<or> helloCustomer b s = Some r \<or>
         helloCustomer_wake b s = Some r \<or> byeCustomer b s = Some r \<or>
         byeCustomer_wake b s = Some r"
  shows "shop_ok (snd r) \<and> cust_drops (snd r) = cust_drops s \<and>
         max_working_barb (snd r) = max_working_barb s \<and>
         max_waiting_cust (snd r) = max_waiting_cust s \<and>
         waiting_customers (snd r) = waiting_customers s"
  using assms
  by (auto simp: leaveShop_def helloCustomer_def helloCustomer_wake_def byeCustomer_def
      byeCustomer_wake_def shop_ok_def split: if_splits)

lemma exec_effect:
  assumes "shop_ok s" and "exec c s = Some s'"
  shows "shop_ok s' \<and> cust_drops s \<le> cust_drops s' \<and>
         (\<not> is_visit c \<longrightarrow> cust_drops s' = cust_drops s)"
proof (cases c)
  case (VisitShop custID)
  with assms visitShop_effect [OF assms(1), of custID] show ?thesis
    by (auto split: outcome.splits if_splits)
next
  case (VisitShop_wake custID)
  with assms visitShop_wake_effect [OF assms(1), of custID] show ?thesis
    by (auto split: if_splits)
next
  case (LeaveShop custID b)
  with assms(2) obtain r where "leaveShop custID b s = Some r" "s' = snd r" by auto
  with barber_calls_effect [OF assms(1), of custID b r] LeaveShop show ?thesis by simp
next
  case (HelloCustomer b)
  with assms(2) obtain r where "helloCustomer b s = Some r" "s' = snd r" by auto
  with barber_calls_effect [OF assms(1), of 0 b r] HelloCustomer show ?thesis by simp
next
  case (HelloCustomer_wake b)
  with assms(2) obtain r where "helloCustomer_wake b s = Some r" "s' = snd r" by auto
  with barber_calls_effect [OF assms(1), of 0 b r] HelloCustomer_wake show ?thesis by simp
next
  case (ByeCustomer b)
  with assms(2) obtain r where "byeCustomer b s = Some r" "s' = snd r" by auto
  with barber_calls_effect [OF assms(1), of 0 b r] ByeCustomer show ?thesis by simp
next
  case (ByeCustomer_wake b)
  with assms(2) obtain r where "byeCustomer_wake b s = Some r" "s' = snd r" by auto
  with barber_calls_effect [OF assms(1), of 0 b r] ByeCustomer_wake show ?thesis by simp
next
  case Get_cust_drops
  with assms show ?thesis by simp
qed

lemma exec_all_effect:
  "shop_ok s \<Longrightarrow> exec_all cs s = Some s' \<Longrightarrow> shop_ok s' \<and> cust_drops s \<le> cust_drops s'"
proof (induction cs arbitrary: s)
  case Nil
  then show ?case by simp
next
  case (Cons c cs)
  then obtain s1 where s1: "exec c s = Some s1" "exec_all cs s1 = Some s'"
    by (auto split: option.splits)
  from exec_effect [OF Cons.prems(1) s1(1)] Cons.IH [OF _ s1(2)]
  show ?case by auto
qed

lemmas shop_examples =
  shop_one_taken_def shop_busy_def shop_full_def shop_no_chairs_def shop_freed_def
  shop_chairs_taken_def

lemmas monitor_steps =
  visitShop_def visitShop_wake_def assignBarber_def assignBarber_loop.simps sit_down_def
  leaveShop_def helloCustomer_def helloCustomer_wake_def byeCustomer_def byeCustomer_wake_def
  valid_barber_def

text \<open>
  C1. In a well-formed shop, a stretch of \<open>visitShop\<close> that returns gives \<open>-1\<close> or an
  index in \<open>[0, max_working_barb)\<close>, and it adds one to \<open>cust_drops\<close> when it gives
  \<open>-1\<close> and leaves the counter alone otherwise; a stretch that blocks leaves it alone.
  This holds for the stretch from the entry and for the stretch after the wake-up. No
  step of \<open>leaveShop\<close>, \<open>helloCustomer\<close> or \<open>byeCustomer\<close> changes \<open>cust_drops\<close>, and
  \<open>get_cust_drops\<close> reads it. Over any sequence of monitor steps the counter does not go
  down.
\<close>

theorem cust_drops_only_visitShop:
  assumes "shop_ok s"
  shows "(\<forall>r s'. visitShop custID s = (Returned r, s') \<longrightarrow>
            (r = - 1 \<or> 0 \<le> r \<and> r < max_working_barb s) \<and>
            cust_drops s' = cust_drops s + (if r = - 1 then 1 else 0)) \<and>
         (\<forall>w s'. visitShop custID s = (Blocked w, s') \<longrightarrow> cust_drops s' = cust_drops s) \<and>
         (\<forall>r s'. visitShop_wake custID s = (r, s') \<longrightarrow>
            (r = - 1 \<or> 0 \<le> r \<and> r < max_working_barb s) \<and>
            cust_drops s' = cust_drops s + (if r = - 1 then 1 else 0)) \<and>
         (\<forall>c s'. \<not> is_visit c \<and> exec c s = Some s' \<longrightarrow> cust_drops s' = cust_drops s) \<and>
         get_cust_drops s = cust_drops s \<and>
         (\<forall>cs s'. exec_all cs s = Some s' \<longrightarrow> cust_drops s \<le> cust_drops s')"
proof -
  have 1: "\<forall>r s'. visitShop custID s = (Returned r, s') \<longrightarrow>
            (r = - 1 \<or> 0 \<le> r \<and> r < max_working_barb s) \<and>
            cust_drops s' = cust_drops s + (if r = - 1 then 1 else 0)"
    using visitShop_effect [OF assms, of custID] by (auto split: if_splits)
  have 2: "\<forall>w s'. visitShop custID s = (Blocked w, s') \<longrightarrow> cust_drops s' = cust_drops s"
    using visitShop_effect [OF assms, of custID] by auto
  have 3: "\<forall>r s'. visitShop_wake custID s = (r, s') \<longrightarrow>
            (r = - 1 \<or> 0 \<le> r \<and> r < max_working_barb s) \<and>
            cust_drops s' = cust_drops s + (if r = - 1 then 1 else 0)"
    using visitShop_wake_effect [OF assms, of custID] by (auto split: if_splits)
  have 4: "\<forall>c s'. \<not> is_visit c \<and> exec c s = Some s' \<longrightarrow> cust_drops s' = cust_drops s"
    using exec_effect [OF assms] by blast
  have 5: "\<forall>cs s'. exec_all cs s = Some s' \<longrightarrow> cust_drops s \<le> cust_drops s'"
    using exec_all_effect [OF assms] by blast
  from 1 2 3 4 5 show ?thesis by (simp add: get_cust_drops_def)
qed

theorem cust_drops_only_visitShop_witness:
  "shop_ok shop_no_chairs \<and>
   visitShop 8 shop_no_chairs = (Returned (- 1), shop_no_chairs\<lparr>cust_drops := 1\<rparr>) \<and>
   cust_drops (shop_no_chairs\<lparr>cust_drops := 1\<rparr>) = cust_drops shop_no_chairs + 1 \<and>
   \<not> is_visit (ByeCustomer 0) \<and>
   exec (ByeCustomer 0) shop_no_chairs = Some (shop_no_chairs\<lparr>in_service := [False, False]\<rparr>) \<and>
   cust_drops (shop_no_chairs\<lparr>in_service := [False, False]\<rparr>) = cust_drops shop_no_chairs \<and>
   exec_all [VisitShop 8, ByeCustomer 0, ByeCustomer_wake 0, VisitShop 9] shop_no_chairs =
     Some (shop_no_chairs\<lparr>cust_drops := 1, customer_in_chair := [9, 5]\<rparr>) \<and>
   cust_drops shop_no_chairs \<le> cust_drops (shop_no_chairs\<lparr>cust_drops := 1, customer_in_chair := [9, 5]\<rparr>)"
proof -
  have v: "visitShop 8 shop_no_chairs = (Returned (- 1), shop_no_chairs\<lparr>cust_drops := 1\<rparr>)"
    by (simp add: monitor_steps shop_examples)
  have b: "\<not> is_visit (ByeCustomer 0) \<and>
    exec (ByeCustomer 0) shop_no_chairs = Some (shop_no_chairs\<lparr>in_service := [False, False]\<rparr>)"
    by (simp add: monitor_steps shop_examples)
  have e: "exec_all [VisitShop 8, ByeCustomer 0, ByeCustomer_wake 0, VisitShop 9] shop_no_chairs =
     Some (shop_no_chairs\<lparr>cust_drops := 1, customer_in_chair := [9, 5]\<rparr>)"
    by (simp add: monitor_steps shop_examples)
  from cust_drops_only_visitShop [OF shop_examples_ok(2), of 8] v b e shop_examples_ok(2)
  show ?thesis by (simp add: shop_examples)
qed

section \<open>Leaving the shop\<close>

text \<open>
  C7. For a chair index in range, \<open>leaveShop\<close> has a defined result. While
  \<open>in_service\<close> of the chair is set it blocks on the chair's \<open>cond_customer_served_\<close> and
  the state is as it was. Once \<open>in_service\<close> is clear it returns, and the state differs
  from the one it found in \<open>money_paid\<close> of that chair only, which is now true:
  \<open>customer_in_chair\<close>, \<open>in_service\<close>, the counters, the capacities and \<open>money_paid\<close> of
  every other chair are the same.
\<close>

theorem leaveShop_only_pays:
  assumes "shop_ok s" and "0 \<le> slot" and "slot < max_working_barb s"
  shows "\<exists>out s'. leaveShop custID slot s = Some (out, s') \<and>
           (in_service s ! nat slot \<longrightarrow> out = Blocked (Cond_customer_served slot) \<and> s' = s) \<and>
           (\<not> in_service s ! nat slot \<longrightarrow>
              out = Returned () \<and>
              money_paid s' ! nat slot = True \<and>
              length (money_paid s') = length (money_paid s) \<and>
              (\<forall>j. j \<noteq> nat slot \<longrightarrow> money_paid s' ! j = money_paid s ! j) \<and>
              customer_in_chair s' = customer_in_chair s \<and>
              in_service s' = in_service s \<and>
              waiting_customers s' = waiting_customers s \<and>
              cust_drops s' = cust_drops s \<and>
              sleeping_barbs s' = sleeping_barbs s \<and>
              max_waiting_cust s' = max_waiting_cust s \<and>
              max_working_barb s' = max_working_barb s)"
  using assms by (auto simp: leaveShop_def valid_barber_def shop_ok_def)

theorem leaveShop_only_pays_witness:
  "shop_ok shop_one_taken \<and> (0::int) \<le> 1 \<and> 1 < max_working_barb shop_one_taken \<and>
   leaveShop 3 0 shop_one_taken = Some (Blocked (Cond_customer_served 0), shop_one_taken) \<and>
   leaveShop 3 1 shop_one_taken =
     Some (Returned (), shop_one_taken\<lparr>money_paid := [False, True, False]\<rparr>)"
proof -
  have h: "(0::int) \<le> 0" "0 < max_working_barb shop_one_taken"
    "(0::int) \<le> 1" "1 < max_working_barb shop_one_taken"
    by (simp_all add: shop_examples)
  have i: "in_service shop_one_taken ! nat 0" "\<not> in_service shop_one_taken ! nat 1"
    by (simp_all add: shop_examples)
  from leaveShop_only_pays [OF shop_one_taken_ok h(1,2), of 3]
    leaveShop_only_pays [OF shop_one_taken_ok h(3,4), of 3] i
  have "leaveShop 3 0 shop_one_taken = Some (Blocked (Cond_customer_served 0), shop_one_taken)"
    and "\<exists>s'. leaveShop 3 1 shop_one_taken = Some (Returned (), s')"
    by auto
  moreover have "leaveShop 3 1 shop_one_taken =
     Some (Returned (), shop_one_taken\<lparr>money_paid := [False, True, False]\<rparr>)"
    by (simp add: monitor_steps shop_examples)
  ultimately show ?thesis using shop_one_taken_ok h by simp
qed

section \<open>The customer identifier 0\<close>

text \<open>
  C10. A chair that \<open>visitShop\<close> hands out was empty, that is, its entry was 0, and it
  holds \<open>custID\<close> afterwards. For \<open>custID \<noteq> 0\<close> no later \<open>visitShop\<close> in that state
  hands out the same chair. For \<open>custID = 0\<close> the entry is still 0, and every later
  \<open>visitShop\<close> in that state hands out the same chair and overwrites the entry with its own
  customer.
\<close>

theorem zero_customer_id_shares_chair:
  assumes "shop_ok s" and "visitShop custID s = (Returned i, s')" and "i \<noteq> - 1"
  shows "customer_in_chair s ! nat i = 0 \<and>
         customer_in_chair s' ! nat i = custID \<and>
         (custID \<noteq> 0 \<longrightarrow> (\<forall>c2. fst (visitShop c2 s') \<noteq> Returned i)) \<and>
         (custID = 0 \<longrightarrow>
            (\<forall>c2. fst (visitShop c2 s') = Returned i \<and>
                  customer_in_chair (snd (visitShop c2 s')) ! nat i = c2))"
proof (cases "all_occupied s")
  case True
  from visitShop_all_occupied [OF assms(1) True, of custID] assms(2,3)
  show ?thesis by (auto split: if_splits)
next
  case False
  then obtain k where k: "k < length (customer_in_chair s)" "customer_in_chair s ! k = 0"
    "\<forall>j < k. customer_in_chair s ! j \<noteq> 0" by (rule first_empty_chair)
  from visitShop_chair [OF assms(1) k, of custID] assms(2,3)
  have gate: "\<not> (max_waiting_cust s \<noteq> 0 \<and> max_waiting_cust s = waiting_customers s)"
    and ik: "i = int k"
    and s': "s' = s\<lparr>customer_in_chair := (customer_in_chair s)[k := custID],
              sleeping_barbs := sleeping_barbs s - 1,
              in_service := (in_service s)[k := True]\<rparr>"
    by (auto split: if_splits)
  have ok': "shop_ok s'" using assms(1) s' by (simp add: shop_ok_def)
  have base: "customer_in_chair s ! nat i = 0 \<and> customer_in_chair s' ! nat i = custID"
    using k ik s' by simp
  have nz: "custID \<noteq> 0 \<longrightarrow> (\<forall>c2. fst (visitShop c2 s') \<noteq> Returned i)"
  proof (intro impI allI)
    fix c2 assume c: "custID \<noteq> 0"
    show "fst (visitShop c2 s') \<noteq> Returned i"
    proof (cases "all_occupied s'")
      case True
      from visitShop_all_occupied [OF ok' True, of c2] assms(3) show ?thesis by auto
    next
      case False
      then obtain m where m: "m < length (customer_in_chair s')" "customer_in_chair s' ! m = 0"
        "\<forall>j < m. customer_in_chair s' ! j \<noteq> 0" by (rule first_empty_chair)
      have "m \<noteq> k" using m(2) c s' k(1) by auto
      with visitShop_chair [OF ok' m, of c2] ik assms(3) show ?thesis by auto
    qed
  qed
  have z: "custID = 0 \<longrightarrow>
            (\<forall>c2. fst (visitShop c2 s') = Returned i \<and>
                  customer_in_chair (snd (visitShop c2 s')) ! nat i = c2)"
  proof (intro impI allI)
    fix c2 assume c: "custID = 0"
    have same: "customer_in_chair s' = customer_in_chair s"
      using s' c k by (simp add: list_update_same_conv)
    have k': "k < length (customer_in_chair s')" "customer_in_chair s' ! k = 0"
      "\<forall>j < k. customer_in_chair s' ! j \<noteq> 0" using k same by simp_all
    have gate': "\<not> (max_waiting_cust s' \<noteq> 0 \<and> max_waiting_cust s' = waiting_customers s')"
      using gate s' by simp
    from visitShop_chair [OF ok' k', of c2] gate' ik k'(1)
    show "fst (visitShop c2 s') = Returned i \<and>
                  customer_in_chair (snd (visitShop c2 s')) ! nat i = c2"
      by simp
  qed
  from base nz z show ?thesis by simp
qed

lemma visitShop_zero_id: "visitShop 0 (Shop 1 0) =
    (Returned 0, (Shop 1 0)\<lparr>sleeping_barbs := - 1, in_service := [True]\<rparr>)"
  by (simp add: Shop_eq monitor_steps)

lemma visitShop_id_5: "visitShop 5 (Shop 1 0) =
    (Returned 0, (Shop 1 0)\<lparr>sleeping_barbs := - 1, customer_in_chair := [5], in_service := [True]\<rparr>)"
  by (simp add: Shop_eq monitor_steps)

theorem zero_customer_id_shares_chair_witness:
  "shop_ok (Shop 1 0) \<and> customer_in_chair (Shop 1 0) = [0] \<and>
   visitShop 0 (Shop 1 0) = (Returned 0, (Shop 1 0)\<lparr>sleeping_barbs := - 1, in_service := [True]\<rparr>) \<and>
   fst (visitShop 7 ((Shop 1 0)\<lparr>sleeping_barbs := - 1, in_service := [True]\<rparr>)) = Returned 0 \<and>
   customer_in_chair (snd (visitShop 7 ((Shop 1 0)\<lparr>sleeping_barbs := - 1, in_service := [True]\<rparr>))) ! nat 0 = 7 \<and>
   visitShop 5 (Shop 1 0) =
     (Returned 0, (Shop 1 0)\<lparr>sleeping_barbs := - 1, customer_in_chair := [5], in_service := [True]\<rparr>) \<and>
   fst (visitShop 7 ((Shop 1 0)\<lparr>sleeping_barbs := - 1, customer_in_chair := [5], in_service := [True]\<rparr>))
     \<noteq> Returned 0"
proof -
  have n: "(0::int) \<noteq> - 1" "(5::int) \<noteq> 0" by simp_all
  have c: "customer_in_chair (Shop 1 0) = [0]" by (simp add: Shop_eq)
  from zero_customer_id_shares_chair [OF Shop_ok visitShop_zero_id n(1)]
    zero_customer_id_shares_chair [OF Shop_ok visitShop_id_5 n(1)] n(2)
    Shop_ok [of 1 0] visitShop_zero_id visitShop_id_5 c
  show ?thesis by blast
qed

section \<open>The wait for payment\<close>

text \<open>
  C6. \<open>byeCustomer\<close> calls \<^verbatim>\<open>pthread_cond_wait\<close> once and does not test
  \<^verbatim>\<open>money_paid_[barbID]\<close> when the wait returns; no method of the class reads
  \<^verbatim>\<open>money_paid_\<close> at all. One barber, three waiting chairs, one customer:
  customer 1 takes chair 0, the barber finds him and calls \<open>byeCustomer\<close>, which blocks
  with \<open>money_paid\<close> false. When that wait returns before customer 1 has run
  \<open>leaveShop\<close>, the barber clears the chair: \<open>customer_in_chair\<close> is 0 while \<open>money_paid\<close>
  is still false and the customer has not left.
\<close>

theorem byeCustomer_wake_ignores_money_paid:
  "map_option (\<lambda>st. (custs st, barbs st, customer_in_chair (the_shop st), money_paid (the_shop st)))
     (Option.bind (main_start 1 3 1 1) (run [Customer 0, Barber 0, Barber 0]))
     = Some ([CLeave 0], [BPaidWait], [1], [False]) \<and>
   map_option (\<lambda>st. (custs st, barbs st, customer_in_chair (the_shop st), money_paid (the_shop st)))
     (Option.bind (main_start 1 3 1 1) (run [Customer 0, Barber 0, Barber 0, Barber 0]))
     = Some ([CLeave 0], [BHello], [0], [False])"
  by (simp add: main_start_def Shop_eq customer_step_def barber_step_def after_visit_def
      monitor_steps)

section \<open>Sequences of calls\<close>

lemma visitShop_waiting:
  assumes "waiting_inv m"
  shows "\<exists>m'. mon_step (VisitShop c) m = Some m' \<and> waiting_inv m'"
proof (cases "all_occupied (mon_shop m)")
  let ?s = "mon_shop m"
  case True
  have ok: "shop_ok ?s" using assms by (simp add: waiting_inv_def)
  note v = visitShop_all_occupied [OF ok True, of c]
  show ?thesis
  proof (cases "max_waiting_cust ?s = 0 \<or> max_waiting_cust ?s = waiting_customers ?s")
    case drop: True
    note v' = v [unfolded if_P [OF drop]]
    show ?thesis using assms v' by (simp add: waiting_inv_def shop_ok_def)
  next
    case wait: False
    note v' = v [unfolded if_not_P [OF wait]]
    show ?thesis using assms v' wait by (simp add: waiting_inv_def shop_ok_def)
  qed
next
  let ?s = "mon_shop m"
  case False
  have ok: "shop_ok ?s" using assms by (simp add: waiting_inv_def)
  from False obtain i where i: "i < length (customer_in_chair ?s)" "customer_in_chair ?s ! i = 0"
    "\<forall>j < i. customer_in_chair ?s ! j \<noteq> 0" by (rule first_empty_chair)
  note v = visitShop_chair [OF ok i, of c]
  show ?thesis
  proof (cases "max_waiting_cust ?s \<noteq> 0 \<and> max_waiting_cust ?s = waiting_customers ?s")
    case drop: True
    note v' = v [unfolded if_P [OF drop]]
    show ?thesis using assms v' by (simp add: waiting_inv_def shop_ok_def)
  next
    case seat: False
    note v' = v [unfolded if_not_P [OF seat]]
    show ?thesis using assms v' by (simp add: waiting_inv_def shop_ok_def)
  qed
qed

lemma visitShop_wake_waiting:
  assumes "waiting_inv m" and "mon_step (VisitShop_wake c) m = Some m'"
  shows "waiting_inv m'"
proof -
  let ?s = "mon_shop m"
  have ok: "shop_ok ?s" using assms by (simp add: waiting_inv_def)
  from assms(2) have c: "c \<in> set (in_visitShop m)"
    and m': "m' = m\<lparr>mon_shop := snd (visitShop_wake c ?s),
                      in_visitShop := remove1 c (in_visitShop m)\<rparr>"
    by (auto split: if_splits)
  have len: "int (length (remove1 c (in_visitShop m))) = int (length (in_visitShop m)) - 1"
  proof -
    from c have "0 < length (in_visitShop m)" by (rule length_pos_if_in_set)
    moreover have "length (remove1 c (in_visitShop m)) = length (in_visitShop m) - 1"
      using c by (simp add: length_remove1)
    ultimately show ?thesis by arith
  qed
  have w: "waiting_customers (snd (visitShop_wake c ?s)) = waiting_customers ?s - 1 \<and>
           shop_ok (snd (visitShop_wake c ?s)) \<and>
           max_waiting_cust (snd (visitShop_wake c ?s)) = max_waiting_cust ?s"
  proof (cases "all_occupied ?s")
    case True
    from visitShop_wake_all_occupied [OF ok True, of c] ok show ?thesis
      by (simp add: shop_ok_def)
  next
    case False
    then obtain i where i: "i < length (customer_in_chair ?s)" "customer_in_chair ?s ! i = 0"
      "\<forall>j < i. customer_in_chair ?s ! j \<noteq> 0" by (rule first_empty_chair)
    from visitShop_wake_chair [OF ok i, of c] ok show ?thesis
      by (simp add: shop_ok_def)
  qed
  show ?thesis using assms(1) w len by (simp add: m' waiting_inv_def)
qed

lemma mon_step_waiting:
  assumes "waiting_inv m" and "mon_step c m = Some m'"
  shows "waiting_inv m'"
proof (cases c)
  case (VisitShop custID)
  with visitShop_waiting [OF assms(1), of custID] assms(2) show ?thesis by auto
next
  case (VisitShop_wake custID)
  with assms show ?thesis by (auto intro: visitShop_wake_waiting)
next
  case (LeaveShop custID b)
  with assms(2) obtain r where r: "leaveShop custID b (mon_shop m) = Some r"
    and m': "m' = m\<lparr>mon_shop := snd r\<rparr>"
    by (auto split: option.splits)
  from assms(1) have ok: "shop_ok (mon_shop m)" by (simp add: waiting_inv_def)
  from barber_calls_effect [OF ok, of custID b r] r assms(1) show ?thesis
    by (simp add: m' waiting_inv_def)
next
  case (HelloCustomer b)
  with assms(2) obtain r where r: "helloCustomer b (mon_shop m) = Some r"
    and m': "mon_shop m' = snd r" "in_visitShop m' = in_visitShop m"
    by (auto split: option.splits outcome.splits)
  from assms(1) have ok: "shop_ok (mon_shop m)" by (simp add: waiting_inv_def)
  from barber_calls_effect [OF ok, of 0 b r] r assms(1) show ?thesis
    by (simp add: m' waiting_inv_def)
next
  case (HelloCustomer_wake b)
  with assms(2) obtain r where r: "helloCustomer_wake b (mon_shop m) = Some r"
    and m': "mon_shop m' = snd r" "in_visitShop m' = in_visitShop m"
    by (auto split: option.splits outcome.splits if_splits)
  from assms(1) have ok: "shop_ok (mon_shop m)" by (simp add: waiting_inv_def)
  from barber_calls_effect [OF ok, of 0 b r] r assms(1) show ?thesis
    by (simp add: m' waiting_inv_def)
next
  case (ByeCustomer b)
  with assms(2) obtain r where r: "byeCustomer b (mon_shop m) = Some r"
    and m': "mon_shop m' = snd r" "in_visitShop m' = in_visitShop m"
    by (auto split: option.splits outcome.splits)
  from assms(1) have ok: "shop_ok (mon_shop m)" by (simp add: waiting_inv_def)
  from barber_calls_effect [OF ok, of 0 b r] r assms(1) show ?thesis
    by (simp add: m' waiting_inv_def)
next
  case (ByeCustomer_wake b)
  with assms(2) obtain r where r: "byeCustomer_wake b (mon_shop m) = Some r"
    and m': "mon_shop m' = snd r" "in_visitShop m' = in_visitShop m"
    by (auto split: option.splits if_splits)
  from assms(1) have ok: "shop_ok (mon_shop m)" by (simp add: waiting_inv_def)
  from barber_calls_effect [OF ok, of 0 b r] r assms(1) show ?thesis
    by (simp add: m' waiting_inv_def)
next
  case Get_cust_drops
  with assms show ?thesis by simp
qed

lemma chairs_invD:
  assumes "chairs_inv m"
  shows "\<And>j. j < length (in_service (mon_shop m)) \<Longrightarrow> in_service (mon_shop m) ! j \<Longrightarrow>
           customer_in_chair (mon_shop m) ! j \<noteq> 0"
    and "\<And>c. c \<in> set (in_visitShop m) \<Longrightarrow> c \<noteq> 0"
    and "distinct (in_byeCustomer m)"
    and "\<And>b. b \<in> set (in_byeCustomer m) \<Longrightarrow>
           0 \<le> b \<and> b < max_working_barb (mon_shop m) \<and>
           customer_in_chair (mon_shop m) ! nat b \<noteq> 0 \<and> \<not> in_service (mon_shop m) ! nat b"
  using assms by (simp_all add: chairs_inv_def valid_barber_def)

lemma chairs_invI:
  assumes "\<And>j. j < length (in_service (mon_shop m)) \<Longrightarrow> in_service (mon_shop m) ! j \<Longrightarrow>
           customer_in_chair (mon_shop m) ! j \<noteq> 0"
    and "\<And>c. c \<in> set (in_visitShop m) \<Longrightarrow> c \<noteq> 0"
    and "distinct (in_byeCustomer m)"
    and "\<And>b. b \<in> set (in_byeCustomer m) \<Longrightarrow>
           0 \<le> b \<and> b < max_working_barb (mon_shop m) \<and>
           customer_in_chair (mon_shop m) ! nat b \<noteq> 0 \<and> \<not> in_service (mon_shop m) ! nat b"
  shows "chairs_inv m"
  using assms by (simp add: chairs_inv_def valid_barber_def)

lemma chairs_inv_cong:
  assumes "chairs_inv m"
    and "customer_in_chair (mon_shop m') = customer_in_chair (mon_shop m)"
    and "in_service (mon_shop m') = in_service (mon_shop m)"
    and "max_working_barb (mon_shop m') = max_working_barb (mon_shop m)"
    and "set (in_visitShop m') \<subseteq> set (in_visitShop m)"
    and "in_byeCustomer m' = in_byeCustomer m"
  shows "chairs_inv m'"
  using assms by (auto simp: chairs_inv_def valid_barber_def)

lemma take_chair_chairs:
  assumes w: "waiting_inv m" and ch: "chairs_inv m"
    and i: "i < length (customer_in_chair (mon_shop m))" "customer_in_chair (mon_shop m) ! i = 0"
    and c: "c \<noteq> 0"
    and m': "customer_in_chair (mon_shop m') = (customer_in_chair (mon_shop m))[i := c]"
      "in_service (mon_shop m') = (in_service (mon_shop m))[i := True]"
      "max_working_barb (mon_shop m') = max_working_barb (mon_shop m)"
      "set (in_visitShop m') \<subseteq> set (in_visitShop m)"
      "in_byeCustomer m' = in_byeCustomer m"
  shows "chairs_inv m'"
proof (rule chairs_invI)
  let ?s = "mon_shop m"
  note d = chairs_invD [OF ch]
  have ok: "shop_ok ?s" using w by (simp add: waiting_inv_def)
  have lens: "length (in_service ?s) = length (customer_in_chair ?s)"
    using ok by (simp add: shop_ok_def)
  show "customer_in_chair (mon_shop m') ! j \<noteq> 0"
    if "j < length (in_service (mon_shop m'))" "in_service (mon_shop m') ! j" for j
  proof (cases "j = i")
    case True
    then show ?thesis using i(1) c m'(1) by simp
  next
    case False
    then show ?thesis using that d(1) [of j] m'(1,2) by simp
  qed
  show "x \<noteq> 0" if "x \<in> set (in_visitShop m')" for x
    using that m'(4) d(2) by blast
  show "distinct (in_byeCustomer m')" using d(3) m'(5) by simp
  show "0 \<le> b \<and> b < max_working_barb (mon_shop m') \<and>
        customer_in_chair (mon_shop m') ! nat b \<noteq> 0 \<and> \<not> in_service (mon_shop m') ! nat b"
    if "b \<in> set (in_byeCustomer m')" for b
  proof -
    from that m'(5) have old: "0 \<le> b \<and> b < max_working_barb ?s \<and>
        customer_in_chair ?s ! nat b \<noteq> 0 \<and> \<not> in_service ?s ! nat b"
      using d(4) [of b] by simp
    with i(2) have "nat b \<noteq> i" by auto
    with old show ?thesis using m'(1,2,3) by simp
  qed
qed

lemma visitShop_chairs:
  assumes w: "waiting_inv m" and ch: "chairs_inv m" and c: "c \<noteq> 0"
    and step: "mon_step (VisitShop c) m = Some m'"
  shows "chairs_inv m'"
proof (cases "all_occupied (mon_shop m)")
  let ?s = "mon_shop m"
  case True
  have ok: "shop_ok ?s" using w by (simp add: waiting_inv_def)
  note v = visitShop_all_occupied [OF ok True, of c]
  show ?thesis
  proof (cases "max_waiting_cust ?s = 0 \<or> max_waiting_cust ?s = waiting_customers ?s")
    case drop: True
    note v' = v [unfolded if_P [OF drop]]
    from step v' have "m' = m\<lparr>mon_shop := ?s\<lparr>cust_drops := cust_drops ?s + 1\<rparr>\<rparr>" by simp
    then show ?thesis by (intro chairs_inv_cong [OF ch]) simp_all
  next
    case wait: False
    note v' = v [unfolded if_not_P [OF wait]]
    from step v' have "m' = m\<lparr>mon_shop := ?s\<lparr>waiting_customers := waiting_customers ?s + 1\<rparr>,
                               in_visitShop := c # in_visitShop m\<rparr>" by simp
    then show ?thesis using ch c by (simp add: chairs_inv_def valid_barber_def)
  qed
next
  let ?s = "mon_shop m"
  case False
  have ok: "shop_ok ?s" using w by (simp add: waiting_inv_def)
  from False obtain i where i: "i < length (customer_in_chair ?s)" "customer_in_chair ?s ! i = 0"
    "\<forall>j < i. customer_in_chair ?s ! j \<noteq> 0" by (rule first_empty_chair)
  note v = visitShop_chair [OF ok i, of c]
  show ?thesis
  proof (cases "max_waiting_cust ?s \<noteq> 0 \<and> max_waiting_cust ?s = waiting_customers ?s")
    case drop: True
    note v' = v [unfolded if_P [OF drop]]
    from step v' have "m' = m\<lparr>mon_shop := ?s\<lparr>cust_drops := cust_drops ?s + 1\<rparr>\<rparr>" by simp
    then show ?thesis by (intro chairs_inv_cong [OF ch]) simp_all
  next
    case seat: False
    note v' = v [unfolded if_not_P [OF seat]]
    from step v' have m': "m' = m\<lparr>mon_shop := ?s
            \<lparr>customer_in_chair := (customer_in_chair ?s)[i := c],
             sleeping_barbs := sleeping_barbs ?s - 1,
             in_service := (in_service ?s)[i := True]\<rparr>\<rparr>" by simp
    show ?thesis by (rule take_chair_chairs [OF w ch i(1,2) c]) (simp_all add: m')
  qed
qed

lemma visitShop_wake_chairs:
  assumes w: "waiting_inv m" and ch: "chairs_inv m"
    and step: "mon_step (VisitShop_wake c) m = Some m'"
  shows "chairs_inv m'"
proof -
  let ?s = "mon_shop m"
  have ok: "shop_ok ?s" using w by (simp add: waiting_inv_def)
  from step have cin: "c \<in> set (in_visitShop m)"
    and m': "m' = m\<lparr>mon_shop := snd (visitShop_wake c ?s),
                      in_visitShop := remove1 c (in_visitShop m)\<rparr>"
    by (auto split: if_splits)
  have c: "c \<noteq> 0" using cin ch by (simp add: chairs_inv_def)
  have sub: "set (remove1 c (in_visitShop m)) \<subseteq> set (in_visitShop m)"
    by (rule set_remove1_subset)
  show ?thesis
  proof (cases "all_occupied ?s")
    case True
    from visitShop_wake_all_occupied [OF ok True, of c] m'
    have "m' = m\<lparr>mon_shop := ?s\<lparr>cust_drops := cust_drops ?s + 1,
                                    waiting_customers := waiting_customers ?s - 1\<rparr>,
                   in_visitShop := remove1 c (in_visitShop m)\<rparr>" by simp
    then show ?thesis using sub by (intro chairs_inv_cong [OF ch]) simp_all
  next
    case False
    then obtain i where i: "i < length (customer_in_chair ?s)" "customer_in_chair ?s ! i = 0"
      "\<forall>j < i. customer_in_chair ?s ! j \<noteq> 0" by (rule first_empty_chair)
    from visitShop_wake_chair [OF ok i, of c] m'
    have m'': "m' = m\<lparr>mon_shop := ?s
            \<lparr>customer_in_chair := (customer_in_chair ?s)[i := c],
             sleeping_barbs := sleeping_barbs ?s - 1,
             waiting_customers := waiting_customers ?s - 1,
             in_service := (in_service ?s)[i := True]\<rparr>,
        in_visitShop := remove1 c (in_visitShop m)\<rparr>" by simp
    show ?thesis by (rule take_chair_chairs [OF w ch i(1,2) c]) (simp_all add: m'' sub)
  qed
qed

lemma byeCustomer_chairs:
  assumes w: "waiting_inv m" and ch: "chairs_inv m" and pre: "call_ok (ByeCustomer b) m"
    and step: "mon_step (ByeCustomer b) m = Some m'"
  shows "chairs_inv m'"
proof (rule chairs_invI)
  let ?s = "mon_shop m"
  note d = chairs_invD [OF ch]
  have ok: "shop_ok ?s" using w by (simp add: waiting_inv_def)
  from pre have v: "valid_barber b ?s" and occ: "customer_in_chair ?s ! nat b \<noteq> 0"
    and new: "b \<notin> set (in_byeCustomer m)" by simp_all
  from step v have m': "m' = m\<lparr>mon_shop := ?s\<lparr>in_service := (in_service ?s)[nat b := False],
                                   money_paid := (money_paid ?s)[nat b := False]\<rparr>,
                 in_byeCustomer := b # in_byeCustomer m\<rparr>"
    by (simp add: byeCustomer_def)
  have lt: "nat b < length (in_service ?s)" using v ok by (simp add: valid_barber_def shop_ok_def)
  show "customer_in_chair (mon_shop m') ! j \<noteq> 0"
    if "j < length (in_service (mon_shop m'))" "in_service (mon_shop m') ! j" for j
    using that d(1) [of j] by (cases "j = nat b") (simp_all add: m')
  show "x \<noteq> 0" if "x \<in> set (in_visitShop m')" for x
    using that d(2) by (simp add: m')
  show "distinct (in_byeCustomer m')" using d(3) new by (simp add: m')
  show "0 \<le> b' \<and> b' < max_working_barb (mon_shop m') \<and>
        customer_in_chair (mon_shop m') ! nat b' \<noteq> 0 \<and> \<not> in_service (mon_shop m') ! nat b'"
    if "b' \<in> set (in_byeCustomer m')" for b'
  proof (cases "b' = b")
    case True
    then show ?thesis using v occ lt by (simp add: m' valid_barber_def)
  next
    case False
    with that have "b' \<in> set (in_byeCustomer m)" by (simp add: m')
    from d(4) [OF this] lt show ?thesis by (simp add: m' nth_list_update)
  qed
qed

lemma byeCustomer_wake_chairs:
  assumes w: "waiting_inv m" and ch: "chairs_inv m"
    and step: "mon_step (ByeCustomer_wake b) m = Some m'"
  shows "chairs_inv m'"
proof (rule chairs_invI)
  let ?s = "mon_shop m"
  note d = chairs_invD [OF ch]
  have ok: "shop_ok ?s" using w by (simp add: waiting_inv_def)
  from step have bin: "b \<in> set (in_byeCustomer m)" by (auto split: if_splits)
  from d(4) [OF bin] have v: "valid_barber b ?s" and idle: "\<not> in_service ?s ! nat b"
    and b0: "0 \<le> b"
    by (simp_all add: valid_barber_def)
  from step bin v have m': "m' = m\<lparr>mon_shop := ?s
        \<lparr>customer_in_chair := (customer_in_chair ?s)[nat b := 0],
         sleeping_barbs := sleeping_barbs ?s + 1\<rparr>,
      in_byeCustomer := remove1 b (in_byeCustomer m)\<rparr>"
    by (simp add: byeCustomer_wake_def)
  show "customer_in_chair (mon_shop m') ! j \<noteq> 0"
    if "j < length (in_service (mon_shop m'))" "in_service (mon_shop m') ! j" for j
  proof (cases "j = nat b")
    case True
    with that idle show ?thesis by (simp add: m')
  next
    case False
    with that d(1) [of j] show ?thesis by (simp add: m')
  qed
  show "x \<noteq> 0" if "x \<in> set (in_visitShop m')" for x
    using that d(2) by (simp add: m')
  show "distinct (in_byeCustomer m')" using d(3) by (simp add: m')
  show "0 \<le> b' \<and> b' < max_working_barb (mon_shop m') \<and>
        customer_in_chair (mon_shop m') ! nat b' \<noteq> 0 \<and> \<not> in_service (mon_shop m') ! nat b'"
    if "b' \<in> set (in_byeCustomer m')" for b'
  proof -
    from that d(3) have mem: "b' \<in> set (in_byeCustomer m)" and ne: "b' \<noteq> b"
      by (auto simp: m')
    from d(4) [OF mem] have old: "0 \<le> b'" "b' < max_working_barb ?s"
      "customer_in_chair ?s ! nat b' \<noteq> 0" "\<not> in_service ?s ! nat b'" by simp_all
    from ne old(1) b0 have "nat b' \<noteq> nat b" by simp
    with old show ?thesis by (simp add: m')
  qed
qed

lemma mon_step_chairs:
  assumes w: "waiting_inv m" and ch: "chairs_inv m" and pre: "call_ok c m"
    and step: "mon_step c m = Some m'"
  shows "chairs_inv m'"
proof (cases c)
  case (VisitShop custID)
  with assms show ?thesis by (auto intro: visitShop_chairs)
next
  case (VisitShop_wake custID)
  with assms show ?thesis by (auto intro: visitShop_wake_chairs)
next
  case (LeaveShop custID b)
  with step show ?thesis
    by (intro chairs_inv_cong [OF ch]) (auto simp: leaveShop_def split: if_splits)
next
  case (HelloCustomer b)
  with step show ?thesis
    by (intro chairs_inv_cong [OF ch])
      (auto simp: helloCustomer_def helloCustomer_wake_def split: if_splits)
next
  case (HelloCustomer_wake b)
  with step show ?thesis
    by (intro chairs_inv_cong [OF ch]) (auto simp: helloCustomer_wake_def split: if_splits)
next
  case (ByeCustomer b)
  with assms show ?thesis by (auto intro: byeCustomer_chairs)
next
  case (ByeCustomer_wake b)
  with assms show ?thesis by (auto intro: byeCustomer_wake_chairs)
next
  case Get_cust_drops
  with step ch show ?thesis by simp
qed

lemma mon_run_inv:
  "waiting_inv m \<Longrightarrow> mon_run cs m = Some m' \<Longrightarrow>
   waiting_inv m' \<and> (chairs_inv m \<and> calls_ok cs m \<longrightarrow> chairs_inv m')"
proof (induction cs arbitrary: m)
  case Nil
  then show ?case by simp
next
  case (Cons c cs)
  then obtain m1 where m1: "mon_step c m = Some m1" "mon_run cs m1 = Some m'"
    by (auto split: option.splits)
  have w1: "waiting_inv m1" by (rule mon_step_waiting [OF Cons.prems(1) m1(1)])
  from Cons.IH [OF w1 m1(2)]
  have ih: "waiting_inv m'" "chairs_inv m1 \<and> calls_ok cs m1 \<longrightarrow> chairs_inv m'" by simp_all
  have "chairs_inv m'" if "chairs_inv m" "calls_ok (c # cs) m"
  proof -
    from that(2) m1(1) have "call_ok c m" "calls_ok cs m1" by simp_all
    with mon_step_chairs [OF Cons.prems(1) that(1) _ m1(1)] ih(2) show ?thesis by blast
  qed
  with ih(1) show ?case by blast
qed

lemma fresh_inv: "waiting_inv (fresh nb nc) \<and> chairs_inv (fresh nb nc)"
  using Shop_ok [of nb nc]
  by (simp add: fresh_def waiting_inv_def chairs_inv_def Shop_eq)

lemma mon_step_capacities:
  assumes "waiting_inv m" and "mon_step c m = Some m'"
  shows "max_waiting_cust (mon_shop m') = max_waiting_cust (mon_shop m) \<and>
         max_working_barb (mon_shop m') = max_working_barb (mon_shop m)"
proof -
  have ok: "shop_ok (mon_shop m)" using assms(1) by (simp add: waiting_inv_def)
  have bc: "max_waiting_cust (snd r) = max_waiting_cust (mon_shop m) \<and>
            max_working_barb (snd r) = max_working_barb (mon_shop m)"
    if "leaveShop cu b (mon_shop m) = Some r \<or> helloCustomer b (mon_shop m) = Some r \<or>
        helloCustomer_wake b (mon_shop m) = Some r \<or> byeCustomer b (mon_shop m) = Some r \<or>
        byeCustomer_wake b (mon_shop m) = Some r" for cu b r
    using barber_calls_effect [OF ok that] by simp
  show ?thesis
  proof (cases c)
    case (VisitShop custID)
    with assms(2) visitShop_effect [OF ok, of custID] show ?thesis
      by (auto split: prod.splits outcome.splits)
  next
    case (VisitShop_wake custID)
    with assms(2) visitShop_wake_effect [OF ok, of custID] show ?thesis
      by (auto split: if_splits)
  next
    case (LeaveShop custID b)
    with assms(2) obtain r where "leaveShop custID b (mon_shop m) = Some r" "mon_shop m' = snd r"
      by (auto split: option.splits)
    with bc [of custID b r] show ?thesis by simp
  next
    case (HelloCustomer b)
    with assms(2) obtain r where "helloCustomer b (mon_shop m) = Some r" "mon_shop m' = snd r"
      by (auto split: option.splits outcome.splits)
    with bc [of 0 b r] show ?thesis by simp
  next
    case (HelloCustomer_wake b)
    with assms(2) obtain r where "helloCustomer_wake b (mon_shop m) = Some r"
      "mon_shop m' = snd r"
      by (auto split: option.splits outcome.splits if_splits)
    with bc [of 0 b r] show ?thesis by simp
  next
    case (ByeCustomer b)
    with assms(2) obtain r where "byeCustomer b (mon_shop m) = Some r" "mon_shop m' = snd r"
      by (auto split: option.splits outcome.splits)
    with bc [of 0 b r] show ?thesis by simp
  next
    case (ByeCustomer_wake b)
    with assms(2) obtain r where "byeCustomer_wake b (mon_shop m) = Some r" "mon_shop m' = snd r"
      by (auto split: option.splits if_splits)
    with bc [of 0 b r] show ?thesis by simp
  next
    case Get_cust_drops
    with assms(2) show ?thesis by simp
  qed
qed

lemma mon_run_capacities:
  "waiting_inv m \<Longrightarrow> mon_run cs m = Some m' \<Longrightarrow>
   max_waiting_cust (mon_shop m') = max_waiting_cust (mon_shop m) \<and>
   max_working_barb (mon_shop m') = max_working_barb (mon_shop m)"
proof (induction cs arbitrary: m)
  case Nil
  then show ?case by simp
next
  case (Cons c cs)
  then obtain m1 where m1: "mon_step c m = Some m1" "mon_run cs m1 = Some m'"
    by (auto split: option.splits)
  from mon_step_waiting [OF Cons.prems(1) m1(1)] mon_step_capacities [OF Cons.prems(1) m1(1)]
    Cons.IH [OF _ m1(2)]
  show ?case by simp
qed

lemma waiting_inv_bounded: "waiting_inv m \<Longrightarrow> waiting_bounded (mon_shop m)"
  by (simp add: waiting_inv_def waiting_bounded_def)

lemma chairs_inv_occupant:
  "waiting_inv m \<Longrightarrow> chairs_inv m \<Longrightarrow> served_has_occupant (mon_shop m)"
  by (simp add: waiting_inv_def chairs_inv_def served_has_occupant_def shop_ok_def)

text \<open>
  C5. Take any sequence of calls of the monitor operations on a freshly constructed Shop,
  as the sequence \<open>cs\<close> of their atomic stretches, and the state \<open>m\<close> it reaches. The
  capacities are those the constructor set, and \<open>waiting_customers\<close> lies between 0 and
  \<open>max_waiting_cust\<close>. When every customer identifier in \<open>cs\<close> is nonzero and every call of
  \<open>byeCustomer\<close> in \<open>cs\<close> is for a chair that holds a customer and has no other call of
  \<open>byeCustomer\<close> blocked, every chair with \<open>in_service\<close> set has a nonzero entry in
  \<open>customer_in_chair\<close>. The next stretch of any call keeps the bounds on
  \<open>waiting_customers\<close>, and keeps the occupants when it meets the same two conditions.
\<close>

theorem call_sequence_invariants:
  assumes "mon_run cs (fresh num_barbers num_chairs) = Some m"
  shows "max_waiting_cust (mon_shop m) = (if num_chairs \<ge> 0 then num_chairs else 3) \<and>
         max_working_barb (mon_shop m) = (if num_barbers > 0 then num_barbers else 1) \<and>
         waiting_bounded (mon_shop m) \<and>
         (calls_ok cs (fresh num_barbers num_chairs) \<longrightarrow> served_has_occupant (mon_shop m)) \<and>
         (\<forall>c m'. mon_step c m = Some m' \<longrightarrow>
            waiting_bounded (mon_shop m') \<and>
            (calls_ok cs (fresh num_barbers num_chairs) \<and> call_ok c m \<longrightarrow>
               served_has_occupant (mon_shop m')))"
proof -
  let ?m0 = "fresh num_barbers num_chairs"
  have w0: "waiting_inv ?m0" and c0: "chairs_inv ?m0" using fresh_inv by simp_all
  from mon_run_inv [OF w0 assms] c0
  have w: "waiting_inv m" and ch: "calls_ok cs ?m0 \<Longrightarrow> chairs_inv m" by simp_all
  from mon_run_capacities [OF w0 assms]
  have caps: "max_waiting_cust (mon_shop m) = (if num_chairs \<ge> 0 then num_chairs else 3)"
    "max_working_barb (mon_shop m) = (if num_barbers > 0 then num_barbers else 1)"
    by (simp_all add: fresh_def Shop_counters)
  have next_step: "waiting_bounded (mon_shop m') \<and>
      (calls_ok cs ?m0 \<and> call_ok c m \<longrightarrow> served_has_occupant (mon_shop m'))"
    if "mon_step c m = Some m'" for c m'
  proof -
    have w': "waiting_inv m'" by (rule mon_step_waiting [OF w that])
    have "served_has_occupant (mon_shop m')" if "calls_ok cs ?m0" "call_ok c m"
      using chairs_inv_occupant [OF w' mon_step_chairs [OF w ch [OF that(1)] that(2)]]
        \<open>mon_step c m = Some m'\<close> by simp
    with w' show ?thesis by (simp add: waiting_inv_bounded)
  qed
  show ?thesis
    using caps waiting_inv_bounded [OF w] chairs_inv_occupant [OF w ch] next_step
    by blast
qed

lemmas call_steps = fresh_def Shop_eq monitor_steps

lemma example_calls:
  "mon_run [VisitShop 1, VisitShop 2, HelloCustomer 0, ByeCustomer 0, LeaveShop 1 0,
            ByeCustomer_wake 0] (fresh 1 1) =
     Some \<lparr>mon_shop = \<lparr>max_waiting_cust = 1, max_working_barb = 1, waiting_customers = 1,
                        sleeping_barbs = 0, cust_drops = 0, customer_in_chair = [0],
                        in_service = [False], money_paid = [True]\<rparr>,
           in_visitShop = [2], in_helloCustomer = [], in_byeCustomer = []\<rparr>"
  "calls_ok [VisitShop 1, VisitShop 2, HelloCustomer 0, ByeCustomer 0, LeaveShop 1 0,
             ByeCustomer_wake 0] (fresh 1 1)"
  by (simp_all add: call_steps)

theorem call_sequence_invariants_witness:
  "mon_run [VisitShop 1, VisitShop 2, HelloCustomer 0, ByeCustomer 0, LeaveShop 1 0,
            ByeCustomer_wake 0] (fresh 1 1) =
     Some \<lparr>mon_shop = \<lparr>max_waiting_cust = 1, max_working_barb = 1, waiting_customers = 1,
                        sleeping_barbs = 0, cust_drops = 0, customer_in_chair = [0],
                        in_service = [False], money_paid = [True]\<rparr>,
           in_visitShop = [2], in_helloCustomer = [], in_byeCustomer = []\<rparr> \<and>
   calls_ok [VisitShop 1, VisitShop 2, HelloCustomer 0, ByeCustomer 0, LeaveShop 1 0,
             ByeCustomer_wake 0] (fresh 1 1) \<and>
   mon_step (VisitShop_wake 2)
     \<lparr>mon_shop = \<lparr>max_waiting_cust = 1, max_working_barb = 1, waiting_customers = 1,
                  sleeping_barbs = 0, cust_drops = 0, customer_in_chair = [0],
                  in_service = [False], money_paid = [True]\<rparr>,
      in_visitShop = [2], in_helloCustomer = [], in_byeCustomer = []\<rparr> =
     Some \<lparr>mon_shop = \<lparr>max_waiting_cust = 1, max_working_barb = 1, waiting_customers = 0,
                        sleeping_barbs = - 1, cust_drops = 0, customer_in_chair = [2],
                        in_service = [True], money_paid = [True]\<rparr>,
           in_visitShop = [], in_helloCustomer = [], in_byeCustomer = []\<rparr> \<and>
   waiting_bounded \<lparr>max_waiting_cust = 1, max_working_barb = 1, waiting_customers = 1,
                    sleeping_barbs = 0, cust_drops = 0, customer_in_chair = [0],
                    in_service = [False], money_paid = [True]\<rparr> \<and>
   served_has_occupant \<lparr>max_waiting_cust = 1, max_working_barb = 1, waiting_customers = 1,
                    sleeping_barbs = 0, cust_drops = 0, customer_in_chair = [0],
                    in_service = [False], money_paid = [True]\<rparr> \<and>
   waiting_bounded \<lparr>max_waiting_cust = 1, max_working_barb = 1, waiting_customers = 0,
                        sleeping_barbs = - 1, cust_drops = 0, customer_in_chair = [2],
                        in_service = [True], money_paid = [True]\<rparr> \<and>
   served_has_occupant \<lparr>max_waiting_cust = 1, max_working_barb = 1, waiting_customers = 0,
                        sleeping_barbs = - 1, cust_drops = 0, customer_in_chair = [2],
                        in_service = [True], money_paid = [True]\<rparr>"
proof -
  have s: "mon_step (VisitShop_wake 2)
     \<lparr>mon_shop = \<lparr>max_waiting_cust = 1, max_working_barb = 1, waiting_customers = 1,
                  sleeping_barbs = 0, cust_drops = 0, customer_in_chair = [0],
                  in_service = [False], money_paid = [True]\<rparr>,
      in_visitShop = [2], in_helloCustomer = [], in_byeCustomer = []\<rparr> =
     Some \<lparr>mon_shop = \<lparr>max_waiting_cust = 1, max_working_barb = 1, waiting_customers = 0,
                        sleeping_barbs = - 1, cust_drops = 0, customer_in_chair = [2],
                        in_service = [True], money_paid = [True]\<rparr>,
           in_visitShop = [], in_helloCustomer = [], in_byeCustomer = []\<rparr>"
    by (simp add: monitor_steps)
  have k: "call_ok (VisitShop_wake 2)
     \<lparr>mon_shop = \<lparr>max_waiting_cust = 1, max_working_barb = 1, waiting_customers = 1,
                  sleeping_barbs = 0, cust_drops = 0, customer_in_chair = [0],
                  in_service = [False], money_paid = [True]\<rparr>,
      in_visitShop = [2], in_helloCustomer = [], in_byeCustomer = []\<rparr>"
    by simp
  note t = call_sequence_invariants [OF example_calls(1)]
  from t example_calls(2)
  have a: "waiting_bounded \<lparr>max_waiting_cust = 1, max_working_barb = 1, waiting_customers = 1,
                    sleeping_barbs = 0, cust_drops = 0, customer_in_chair = [0],
                    in_service = [False], money_paid = [True]\<rparr> \<and>
   served_has_occupant \<lparr>max_waiting_cust = 1, max_working_barb = 1, waiting_customers = 1,
                    sleeping_barbs = 0, cust_drops = 0, customer_in_chair = [0],
                    in_service = [False], money_paid = [True]\<rparr>"
    by simp
  from t have "mon_step c \<lparr>mon_shop = \<lparr>max_waiting_cust = 1, max_working_barb = 1,
                  waiting_customers = 1,
                  sleeping_barbs = 0, cust_drops = 0, customer_in_chair = [0],
                  in_service = [False], money_paid = [True]\<rparr>,
      in_visitShop = [2], in_helloCustomer = [], in_byeCustomer = []\<rparr> = Some m' \<Longrightarrow>
      waiting_bounded (mon_shop m') \<and>
      (calls_ok [VisitShop 1, VisitShop 2, HelloCustomer 0, ByeCustomer 0, LeaveShop 1 0,
             ByeCustomer_wake 0] (fresh 1 1) \<and>
       call_ok c \<lparr>mon_shop = \<lparr>max_waiting_cust = 1, max_working_barb = 1,
                  waiting_customers = 1,
                  sleeping_barbs = 0, cust_drops = 0, customer_in_chair = [0],
                  in_service = [False], money_paid = [True]\<rparr>,
      in_visitShop = [2], in_helloCustomer = [], in_byeCustomer = []\<rparr> \<longrightarrow>
       served_has_occupant (mon_shop m'))" for c m'
    by simp
  from this [OF s] k example_calls(2)
  have b: "waiting_bounded \<lparr>max_waiting_cust = 1, max_working_barb = 1, waiting_customers = 0,
                        sleeping_barbs = - 1, cust_drops = 0, customer_in_chair = [2],
                        in_service = [True], money_paid = [True]\<rparr> \<and>
   served_has_occupant \<lparr>max_waiting_cust = 1, max_working_barb = 1, waiting_customers = 0,
                        sleeping_barbs = - 1, cust_drops = 0, customer_in_chair = [2],
                        in_service = [True], money_paid = [True]\<rparr>"
    by simp
  from a b s example_calls show ?thesis by blast
qed

text \<open>
  C5, for any sequence of calls: without those conditions a chair in service can lose its
  occupant. Each of the three sequences below is a sequence of calls on a fresh
  \<open>Shop 1 3\<close> that ends with \<open>in_service\<close> of chair 0 set and its entry of
  \<open>customer_in_chair\<close> equal to 0. The first has a customer with the identifier 0. The
  second has nonzero identifiers and calls \<open>byeCustomer\<close> for the empty chair. The third
  has nonzero identifiers and calls \<open>byeCustomer\<close> twice for the occupied chair before
  either call has gone on.
\<close>

theorem in_service_without_occupant:
  "mon_run [VisitShop 0] (fresh 1 3) \<noteq> None \<and>
   in_service (mon_shop (the (mon_run [VisitShop 0] (fresh 1 3)))) = [True] \<and>
   customer_in_chair (mon_shop (the (mon_run [VisitShop 0] (fresh 1 3)))) = [0] \<and>
   mon_run [ByeCustomer 0, VisitShop 1, ByeCustomer_wake 0] (fresh 1 3) \<noteq> None \<and>
   in_service (mon_shop (the (mon_run [ByeCustomer 0, VisitShop 1, ByeCustomer_wake 0]
     (fresh 1 3)))) = [True] \<and>
   customer_in_chair (mon_shop (the (mon_run [ByeCustomer 0, VisitShop 1, ByeCustomer_wake 0]
     (fresh 1 3)))) = [0] \<and>
   mon_run [VisitShop 1, ByeCustomer 0, ByeCustomer 0, ByeCustomer_wake 0, VisitShop 2,
            ByeCustomer_wake 0] (fresh 1 3) \<noteq> None \<and>
   in_service (mon_shop (the (mon_run [VisitShop 1, ByeCustomer 0, ByeCustomer 0,
     ByeCustomer_wake 0, VisitShop 2, ByeCustomer_wake 0] (fresh 1 3)))) = [True] \<and>
   customer_in_chair (mon_shop (the (mon_run [VisitShop 1, ByeCustomer 0, ByeCustomer 0,
     ByeCustomer_wake 0, VisitShop 2, ByeCustomer_wake 0] (fresh 1 3)))) = [0]"
  by (simp add: call_steps)

section \<open>A customer left in the shop\<close>



end
